theory Spec2Isabelle
  imports Complex_Main "HOL-Library.Word" "HOL-Library.Log_Nat"
begin

unbundle bit_operations_syntax

section \<open>IEEE-754 binary formats\<close>

text \<open>
  The program computes with \<^verbatim>\<open>double\<close> (binary64) and \<^verbatim>\<open>float\<close> (binary32). A value
  of either format is its three bit fields: the sign bit, the biased exponent of
  \<open>LENGTH('e)\<close> bits and the trailing significand of \<open>LENGTH('f)\<close> bits.
\<close>

type_synonym ('e, 'f) ieee = "bool \<times> 'e word \<times> 'f word"

definition Ieee :: "bool \<Rightarrow> 'e::len word \<Rightarrow> 'f::len word \<Rightarrow> ('e, 'f) ieee" where
  "Ieee s e f = (s, e, f)"

definition sign :: "('e::len, 'f::len) ieee \<Rightarrow> bool" where
  "sign v = fst v"

definition expo :: "('e::len, 'f::len) ieee \<Rightarrow> 'e word" where
  "expo v = fst (snd v)"

definition fraction :: "('e::len, 'f::len) ieee \<Rightarrow> 'f word" where
  "fraction v = snd (snd v)"

type_synonym float32 = "(8, 23) ieee"
type_synonym float64 = "(11, 52) ieee"

definition is_nan :: "('e::len, 'f::len) ieee \<Rightarrow> bool" where
  "is_nan v \<longleftrightarrow> expo v = - 1 \<and> fraction v \<noteq> 0"

definition is_inf :: "('e::len, 'f::len) ieee \<Rightarrow> bool" where
  "is_inf v \<longleftrightarrow> expo v = - 1 \<and> fraction v = 0"

definition is_finite :: "('e::len, 'f::len) ieee \<Rightarrow> bool" where
  "is_finite v \<longleftrightarrow> expo v \<noteq> - 1"

definition is_zero :: "('e::len, 'f::len) ieee \<Rightarrow> bool" where
  "is_zero v \<longleftrightarrow> expo v = 0 \<and> fraction v = 0"

definition is_normal :: "('e::len, 'f::len) ieee \<Rightarrow> bool" where
  "is_normal v \<longleftrightarrow> expo v \<noteq> 0 \<and> expo v \<noteq> - 1"

text \<open>
  The exponent and significand fields read as one number: the bit pattern without
  its sign bit.
\<close>

definition magnitude :: "('e::len, 'f::len) ieee \<Rightarrow> int" where
  "magnitude v = uint (expo v) * 2 ^ LENGTH('f) + uint (fraction v)"

text \<open>
  \<open>fp_units fw p\<close> is the absolute value of the finite number with magnitude
  pattern \<open>p\<close>, counted in units of the least subnormal: a subnormal (exponent
  field 0) is its fraction, a normal number is the significand with its hidden bit,
  shifted by the exponent field less one.
\<close>

definition fp_units :: "nat \<Rightarrow> int \<Rightarrow> int" where
  "fp_units fw p =
     (if p div 2 ^ fw = 0 then p
      else (2 ^ fw + p mod 2 ^ fw) * 2 ^ (nat (p div 2 ^ fw) - 1))"

definition bias :: "nat \<Rightarrow> nat" where
  "bias ew = 2 ^ (ew - 1) - 1"

text \<open>The least subnormal is \<open>1 / 2 ^ unit_shift ew fw\<close>.\<close>

definition unit_shift :: "nat \<Rightarrow> nat \<Rightarrow> nat" where
  "unit_shift ew fw = bias ew + fw - 1"

text \<open>The number a finite value stands for (both zeros are 0).\<close>

definition valof :: "('e::len, 'f::len) ieee \<Rightarrow> rat" where
  "valof v =
     (if sign v then - 1 else 1) * of_int (fp_units LENGTH('f) (magnitude v))
       / 2 ^ unit_shift LENGTH('e) LENGTH('f)"

definition of_magnitude :: "bool \<Rightarrow> int \<Rightarrow> ('e::len, 'f::len) ieee" where
  "of_magnitude s p = Ieee s (of_int (p div 2 ^ LENGTH('f))) (of_int (p mod 2 ^ LENGTH('f)))"

definition infinity :: "bool \<Rightarrow> ('e::len, 'f::len) ieee" where
  "infinity s = Ieee s (- 1) 0"

definition quiet_nan :: "bool \<Rightarrow> ('e::len, 'f::len) ieee" where
  "quiet_nan s = Ieee s (- 1) (2 ^ (LENGTH('f) - 1))"

subsection \<open>Rounding to nearest, ties to even\<close>

definition round_half_even :: "rat \<Rightarrow> int" where
  "round_half_even q =
     (let f = \<lfloor>q\<rfloor>; r = q - of_int f
      in if r < 1 / 2 then f
         else if 1 / 2 < r then f + 1
         else if even f then f else f + 1)"

text \<open>
  Rounding a non-negative rational \<open>y\<close>, given in units of the least subnormal,
  to a magnitude pattern with \<open>fw\<close> fraction bits. The bit length of the integer
  part gives the binade: the significand \<open>y / 2 ^ binade fw y\<close> lies below
  \<open>2 ^ (fw + 1)\<close>, and in \<open>[2 ^ fw, 2 ^ (fw + 1))\<close> when the binade is not the lowest
  one. The significand is rounded to an integer and added to the exponent field; a
  carry out of the significand lands in the exponent field by the addition.
\<close>

definition binade :: "nat \<Rightarrow> rat \<Rightarrow> nat" where
  "binade fw y = nat (bitlen \<lfloor>y\<rfloor> - int fw - 1)"

definition round_pattern :: "nat \<Rightarrow> rat \<Rightarrow> int" where
  "round_pattern fw y =
     int (binade fw y) * 2 ^ fw + round_half_even (y / 2 ^ binade fw y)"

text \<open>
  \<open>round_magnitude ew fw x\<close> rounds the non-negative rational \<open>x\<close> to the format.
  A result beyond the largest finite number is the pattern of infinity.
\<close>

definition round_magnitude :: "nat \<Rightarrow> nat \<Rightarrow> rat \<Rightarrow> int" where
  "round_magnitude ew fw x =
     (let p = round_pattern fw (x * 2 ^ unit_shift ew fw)
      in if (2 ^ ew - 1) * 2 ^ fw \<le> p then (2 ^ ew - 1) * 2 ^ fw else p)"

definition fp_round :: "bool \<Rightarrow> rat \<Rightarrow> ('e::len, 'f::len) ieee" where
  "fp_round s x = of_magnitude s (round_magnitude LENGTH('e) LENGTH('f) x)"

subsection \<open>The operations the program uses\<close>

text \<open>Conversion of an \<^verbatim>\<open>int\<close> to \<^verbatim>\<open>double\<close> (integer zero becomes \<open>+0.0\<close>).\<close>

definition int_to_double :: "int \<Rightarrow> float64" where
  "int_to_double i = fp_round (i < 0) (of_int \<bar>i\<bar>)"

text \<open>A decimal literal of type \<^verbatim>\<open>double\<close>, such as \<^verbatim>\<open>1.0\<close> or \<^verbatim>\<open>128.0\<close>.\<close>

definition double_literal :: "rat \<Rightarrow> float64" where
  "double_literal x = fp_round (x < 0) \<bar>x\<bar>"

definition fp_mul :: "('e::len, 'f::len) ieee \<Rightarrow> ('e, 'f) ieee \<Rightarrow> ('e, 'f) ieee" where
  "fp_mul a b =
     (let s = (sign a \<noteq> sign b)
      in if is_nan a \<or> is_nan b then quiet_nan s
         else if is_inf a \<or> is_inf b then
           (if is_zero a \<or> is_zero b then quiet_nan s else infinity s)
         else fp_round s (\<bar>valof a\<bar> * \<bar>valof b\<bar>))"

definition fp_div :: "('e::len, 'f::len) ieee \<Rightarrow> ('e, 'f) ieee \<Rightarrow> ('e, 'f) ieee" where
  "fp_div a b =
     (let s = (sign a \<noteq> sign b)
      in if is_nan a \<or> is_nan b then quiet_nan s
         else if is_inf a then (if is_inf b then quiet_nan s else infinity s)
         else if is_inf b then of_magnitude s 0
         else if is_zero b then (if is_zero a then quiet_nan s else infinity s)
         else fp_round s (\<bar>valof a\<bar> / \<bar>valof b\<bar>))"

text \<open>
  \<^verbatim>\<open>static_cast<float>\<close> of a \<^verbatim>\<open>double\<close>: the narrowing conversion. A NaN keeps its
  sign and the upper 23 bits of its payload, and is made quiet.
\<close>

definition double_to_float :: "float64 \<Rightarrow> float32" where
  "double_to_float d =
     (if is_nan d then Ieee (sign d) (- 1) (ucast (drop_bit 29 (fraction d)) OR 2 ^ 22)
      else if is_inf d then infinity (sign d)
      else fp_round (sign d) \<bar>valof d\<bar>)"

section \<open>Object representations and \<^verbatim>\<open>memcpy\<close>\<close>

text \<open>
  The IEEE-754 interchange encoding of a value: sign bit on top, then the exponent
  field, then the trailing significand.
\<close>

definition ieee_bits :: "('e::len, 'f::len) ieee \<Rightarrow> 'w::len word" where
  "ieee_bits v =
     push_bit (LENGTH('e) + LENGTH('f)) (of_bool (sign v))
       OR push_bit LENGTH('f) (ucast (expo v)) OR ucast (fraction v)"

text \<open>Reading a 32-bit pattern as a \<^verbatim>\<open>float\<close>: the inverse encoding.\<close>

definition float_of_bits :: "32 word \<Rightarrow> float32" where
  "float_of_bits w = Ieee (bit w 31) (ucast (drop_bit 23 w)) (ucast w)"

datatype endian = LittleEndian | BigEndian

type_synonym byte = "8 word"

definition u32_bytes_le :: "32 word \<Rightarrow> byte list" where
  "u32_bytes_le w = map (\<lambda>i. ucast (drop_bit (8 * i) w)) [0 ..< 4]"

definition u32_of_bytes_le :: "byte list \<Rightarrow> 32 word" where
  "u32_of_bytes_le bs = foldr (\<lambda>b acc. ucast b OR push_bit 8 acc) bs 0"

text \<open>
  The bytes of a 32-bit scalar in memory, lowest address first. A \<^verbatim>\<open>float\<close> occupies
  the four bytes of its encoding, in the same byte order as a \<^verbatim>\<open>uint32_t\<close>.
\<close>

definition store_u32 :: "endian \<Rightarrow> 32 word \<Rightarrow> byte list" where
  "store_u32 en w = (case en of LittleEndian \<Rightarrow> u32_bytes_le w | BigEndian \<Rightarrow> rev (u32_bytes_le w))"

definition load_u32 :: "endian \<Rightarrow> byte list \<Rightarrow> 32 word" where
  "load_u32 en bs = (case en of LittleEndian \<Rightarrow> u32_of_bytes_le bs | BigEndian \<Rightarrow> u32_of_bytes_le (rev bs))"

definition store_float :: "endian \<Rightarrow> float32 \<Rightarrow> byte list" where
  "store_float en v = store_u32 en (ieee_bits v)"

definition memcpy :: "byte list \<Rightarrow> byte list \<Rightarrow> nat \<Rightarrow> byte list" where
  "memcpy dst src n = take n src @ drop n dst"

text \<open>
  \<^verbatim>\<open>uint32_t u; std::memcpy(&u, &v, sizeof(u)); return u;\<close>
  The local \<open>u\<close> starts indeterminate; its four bytes are taken as zero here, and
  \<open>memcpy\<close> overwrites all \<open>sizeof(u) = 4\<close> of them.
\<close>

definition float_to_u32 :: "endian \<Rightarrow> float32 \<Rightarrow> 32 word" where
  "float_to_u32 en v =
     (let u = store_u32 en 0;
          u = memcpy u (store_float en v) 4
      in load_u32 en u)"

section \<open>Output streams\<close>

datatype basefield = Dec | Oct | Hex

text \<open>
  A file stream: its formatting state, the characters that have reached the file
  (\<open>buf\<close>), how many more the file system will take (\<open>room\<close>, \<open>None\<close> when there
  is no limit), and whether a write has failed (\<open>bad\<close>).
\<close>

record ostream =
  base :: basefield
  fill :: char
  width :: nat
  buf :: string
  room :: "nat option"
  bad :: bool

definition digit_char :: "int \<Rightarrow> char" where
  "digit_char d = ''0123456789abcdef'' ! nat d"

function digits :: "int \<Rightarrow> int \<Rightarrow> string" where
  "digits b n =
     (if n < b \<or> b < 2 then [digit_char n]
      else digits b (n div b) @ [digit_char (n mod b)])"
  by pat_completeness auto
termination
  by (relation "measure (\<lambda>(b, n). nat n)") (auto simp: pos_imp_zdiv_nonneg_iff intro!: int_div_less_self)

declare digits.simps [simp del]

definition radix :: "basefield \<Rightarrow> int" where
  "radix f = (case f of Dec \<Rightarrow> 10 | Oct \<Rightarrow> 8 | Hex \<Rightarrow> 16)"

text \<open>Padding to the field width, right-adjusted (the default adjustment).\<close>

definition pad :: "ostream \<Rightarrow> string \<Rightarrow> string" where
  "pad s t = replicate (width s - length t) (fill s) @ t"

text \<open>
  Writing characters: as many as there is room for reach the file, and the stream
  goes bad when some do not.
\<close>

definition emit :: "ostream \<Rightarrow> string \<Rightarrow> ostream" where
  "emit s t =
     (case room s of
        None \<Rightarrow> s\<lparr>buf := buf s @ t\<rparr>
      | Some n \<Rightarrow> s\<lparr>buf := buf s @ take n t, room := Some (n - length t), bad := (n < length t)\<rparr>)"

text \<open>
  Formatted insertion: the width applies to this item and is then reset to 0. On a
  stream that has gone bad an insertion does nothing.
\<close>

definition put_u32 :: "ostream \<Rightarrow> 32 word \<Rightarrow> ostream" where
  "put_u32 s u =
     (if bad s then s
      else (emit s (pad s (digits (radix (base s)) (uint u))))\<lparr>width := 0\<rparr>)"

definition put_str :: "ostream \<Rightarrow> string \<Rightarrow> ostream" where
  "put_str s t = (if bad s then s else (emit s (pad s t))\<lparr>width := 0\<rparr>)"

definition set_hex :: "ostream \<Rightarrow> ostream" where
  "set_hex s = s\<lparr>base := Hex\<rparr>"

definition setfill :: "char \<Rightarrow> ostream \<Rightarrow> ostream" where
  "setfill c s = s\<lparr>fill := c\<rparr>"

definition setw :: "nat \<Rightarrow> ostream \<Rightarrow> ostream" where
  "setw n s = s\<lparr>width := n\<rparr>"

text \<open>A stream just opened on an empty file with room for \<open>r\<close> characters.\<close>

definition new_ostream :: "nat option \<Rightarrow> ostream" where
  "new_ostream r = \<lparr>base = Dec, fill = CHR '' '', width = 0, buf = [], room = r, bad = False\<rparr>"

section \<open>The generator\<close>

definition STEPS :: int where
  "STEPS = 1024"

definition STEP :: float64 where
  "STEP = fp_div (double_literal 1) (double_literal 128)"

text \<open>
  The three locals of the loop body, for the C library's \<open>exp\<close> given as \<open>exp_d\<close>.
  The counter \<open>k\<close> stays between 0 and 1025, far from the limits of a 32-bit
  \<^verbatim>\<open>int\<close>, and is an unbounded integer here.
\<close>

definition sample_x :: "int \<Rightarrow> float64" where
  "sample_x k = fp_mul (int_to_double (- k)) STEP"

definition sample_y :: "(float64 \<Rightarrow> float64) \<Rightarrow> int \<Rightarrow> float32" where
  "sample_y exp_d k = double_to_float (exp_d (sample_x k))"

definition sample_u :: "(float64 \<Rightarrow> float64) \<Rightarrow> endian \<Rightarrow> int \<Rightarrow> 32 word" where
  "sample_u exp_d en k = float_to_u32 en (sample_y exp_d k)"

definition loop_body :: "(float64 \<Rightarrow> float64) \<Rightarrow> endian \<Rightarrow> int \<Rightarrow> ostream \<Rightarrow> ostream" where
  "loop_body exp_d en k ofs =
     (let u = sample_u exp_d en k;
          ofs = put_u32 (setw 8 ofs) u
      in put_str ofs [CHR 0x0A])"

function loop :: "(float64 \<Rightarrow> float64) \<Rightarrow> endian \<Rightarrow> int \<Rightarrow> ostream \<Rightarrow> ostream" where
  "loop exp_d en k ofs =
     (if k \<le> STEPS then loop exp_d en (k + 1) (loop_body exp_d en k ofs) else ofs)"
  by pat_completeness auto
termination
  by (relation "measure (\<lambda>(exp_d, en, k, ofs). nat (STEPS + 1 - k))") auto

declare loop.simps [simp del]

text \<open>
  What the process can observe and change: the files, whether a path can be opened
  for writing, how many characters the file system will take for a file (\<open>None\<close>
  when there is no limit), the two standard streams, and the order of its
  input/output actions.
\<close>

datatype event = EvOpen string | EvClose string string | EvCout string | EvCerr string

record world =
  files :: "string \<rightharpoonup> string"
  can_open :: "string \<Rightarrow> bool"
  disk_room :: "string \<Rightarrow> nat option"
  cout :: string
  cerr :: string
  events :: "event list"

definition out_path :: string where
  "out_path = ''exp_lut_1over128.hex''"

definition open_failed_msg :: string where
  "open_failed_msg = ''Failed to open output file.'' @ [CHR 0x0A]"

definition done_msg :: string where
  "done_msg = ''Generated exp_lut_1over128.hex with 1025 entries.'' @ [CHR 0x0A]"

text \<open>
  \<^verbatim>\<open>std::ofstream ofs(path)\<close> creates or truncates the file; the characters that were
  written are in the file when \<^verbatim>\<open>close\<close> returns. The stream is tested once, after
  the open: neither the insertions of the loop nor the close are checked, so a run
  whose writes fail goes on to the message and to exit status 0. \<open>main\<close> returns the
  exit status and the world it leaves.
\<close>

definition main :: "(float64 \<Rightarrow> float64) \<Rightarrow> endian \<Rightarrow> world \<Rightarrow> int \<times> world" where
  "main exp_d en w =
     (if \<not> can_open w out_path then
        (1, w\<lparr>cerr := cerr w @ open_failed_msg,
               events := events w @ [EvCerr open_failed_msg]\<rparr>)
      else
        let w = w\<lparr>files := (files w)(out_path \<mapsto> []), events := events w @ [EvOpen out_path]\<rparr>;
            ofs = new_ostream (disk_room w out_path);
            ofs = setfill (CHR ''0'') (set_hex ofs);
            ofs = loop exp_d en 0 ofs;
            w = w\<lparr>files := (files w)(out_path \<mapsto> buf ofs),
                   events := events w @ [EvClose out_path (buf ofs)]\<rparr>;
            w = w\<lparr>cout := cout w @ done_msg, events := events w @ [EvCout done_msg]\<rparr>
        in (0, w))"

section \<open>The library's exponential\<close>

text \<open>
  \<^verbatim>\<open>std::exp\<close> belongs to the C library, not to the program, and is a parameter
  \<open>exp_d\<close> of the model. What the numeric properties of the table need of it at an
  argument \<open>x\<close> is that the result is a finite \<^verbatim>\<open>double\<close> within a relative error of
  \<open>2 ^ - 25\<close> of the exponential of \<open>x\<close>. (A result accurate to one unit in the last
  place of a \<^verbatim>\<open>double\<close> has a relative error below \<open>2 ^ - 52\<close>.)
\<close>

definition exp_accurate :: "(float64 \<Rightarrow> float64) \<Rightarrow> float64 \<Rightarrow> bool" where
  "exp_accurate exp_d x \<longleftrightarrow>
     is_finite (exp_d x)
     \<and> \<bar>real_of_rat (valof (exp_d x)) - exp (real_of_rat (valof x))\<bar>
         \<le> exp (real_of_rat (valof x)) / 2 ^ 25"

text \<open>
  A reference implementation that meets this for every argument between \<open>- 8\<close> and
  0: the Taylor polynomial of degree 63 of the exponential, evaluated in exact
  rational arithmetic and rounded to \<^verbatim>\<open>double\<close>.
\<close>

fun exp_series :: "nat \<Rightarrow> rat \<Rightarrow> rat" where
  "exp_series 0 v = 0"
| "exp_series (Suc n) v = exp_series n v + v ^ n / of_nat (fact n)"

definition exp_ref :: "float64 \<Rightarrow> float64" where
  "exp_ref x = fp_round False (exp_series 64 (valof x))"

section \<open>Reading the output file back\<close>

text \<open>
  The notions the properties of the table are stated with: the lines of a text
  (each ended by a line feed), the sixteen lowercase hexadecimal digits, and the
  number a string of such digits denotes.
\<close>

definition hex_chars :: "char set" where
  "hex_chars = set ''0123456789abcdef''"

fun split_lines :: "string \<Rightarrow> string list" where
  "split_lines [] = []"
| "split_lines (c # cs) =
     (if c = CHR 0x0A then [] # split_lines cs
      else (case split_lines cs of [] \<Rightarrow> [[c]] | l # ls \<Rightarrow> (c # l) # ls))"

definition hex_digit_val :: "char \<Rightarrow> int option" where
  "hex_digit_val c = map_of (zip ''0123456789abcdef'' [0 .. 15]) c"

fun parse_hex_from :: "int \<Rightarrow> string \<Rightarrow> int option" where
  "parse_hex_from acc [] = Some acc"
| "parse_hex_from acc (c # cs) =
     (case hex_digit_val c of None \<Rightarrow> None | Some d \<Rightarrow> parse_hex_from (16 * acc + d) cs)"

definition parse_hex :: "string \<Rightarrow> int option" where
  "parse_hex s = (if s = [] then None else parse_hex_from 0 s)"

text \<open>The text of one table entry: eight digits, zeros in front.\<close>

definition hex8 :: "32 word \<Rightarrow> string" where
  "hex8 u = replicate (8 - length (digits 16 (uint u))) (CHR ''0'') @ digits 16 (uint u)"

text \<open>The text of the table from entry \<open>k\<close> to the last one.\<close>

definition table_text :: "(float64 \<Rightarrow> float64) \<Rightarrow> endian \<Rightarrow> int \<Rightarrow> string" where
  "table_text exp_d en k = concat (map (\<lambda>i. hex8 (sample_u exp_d en i) @ [CHR 0x0A]) [k .. STEPS])"

text \<open>What reaches a file with room \<open>r\<close> of the text \<open>t\<close> written to it.\<close>

definition written :: "nat option \<Rightarrow> string \<Rightarrow> string" where
  "written r t = (case r of None \<Rightarrow> t | Some n \<Rightarrow> take n t)"

text \<open>Every write of the run succeeds: the file system takes the whole table.\<close>

definition writes_succeed :: "(float64 \<Rightarrow> float64) \<Rightarrow> endian \<Rightarrow> world \<Rightarrow> bool" where
  "writes_succeed exp_d en w \<longleftrightarrow>
     (case disk_room w out_path of
        None \<Rightarrow> True
      | Some n \<Rightarrow> length (table_text exp_d en 0) \<le> n)"

text \<open>The file a run leaves, and its lines.\<close>

definition output_file :: "(float64 \<Rightarrow> float64) \<Rightarrow> endian \<Rightarrow> world \<Rightarrow> string option" where
  "output_file exp_d en w = files (snd (main exp_d en w)) out_path"

definition output_lines :: "(float64 \<Rightarrow> float64) \<Rightarrow> endian \<Rightarrow> world \<Rightarrow> string list" where
  "output_lines exp_d en w = split_lines (the (output_file exp_d en w))"


text \<open>
  Four worlds to run the generator in: an empty one without limits, one where the
  output file exists already, one where it cannot be opened, and one whose file
  system takes 4095 characters and no more.
\<close>

definition fresh_world :: world where
  "fresh_world =
     \<lparr>files = Map.empty, can_open = (\<lambda>p. True), disk_room = (\<lambda>p. None),
      cout = [], cerr = [], events = []\<rparr>"

definition stale_world :: world where
  "stale_world = fresh_world\<lparr>files := [out_path \<mapsto> ''stale'']\<rparr>"

definition locked_world :: world where
  "locked_world = fresh_world\<lparr>can_open := (\<lambda>p. False)\<rparr>"

definition full_disk_world :: world where
  "full_disk_world = fresh_world\<lparr>disk_room := (\<lambda>p. Some 4095)\<rparr>"

section \<open>Bit patterns and bytes\<close>


lemma u32_bytes_le_inverse: "u32_of_bytes_le (u32_bytes_le w) = w"
proof -
  have l: "[0 ..< 4] = [0, 1, 2, Suc 2]" by (simp add: upt_rec)
  show ?thesis
    unfolding u32_of_bytes_le_def u32_bytes_le_def l
    apply simp
    apply (rule bit_eqI)
    apply (auto simp add: bit_simps)
    subgoal for n by (cases "24 \<le> n") auto
    done
qed

lemma length_u32_bytes_le: "length (u32_bytes_le w) = 4"
  by (simp add: u32_bytes_le_def)

lemma length_store_u32: "length (store_u32 en w) = 4"
  by (cases en) (simp_all add: store_u32_def length_u32_bytes_le)

lemma load_store_u32: "load_u32 en (store_u32 en w) = w"
  by (cases en) (simp_all add: load_u32_def store_u32_def u32_bytes_le_inverse)

lemma memcpy_whole: "length src = n \<Longrightarrow> length dst = n \<Longrightarrow> memcpy dst src n = src"
  by (simp add: memcpy_def)

lemma float_to_u32_bits: "float_to_u32 en v = ieee_bits v"
  by (simp add: float_to_u32_def store_float_def memcpy_whole length_store_u32 load_store_u32)

lemma magnitude_bounds: 
  fixes v :: "('e::len, 'f::len) ieee"
  shows "0 \<le> magnitude v" "magnitude v < 2 ^ (LENGTH('e) + LENGTH('f))"
proof -
  have e: "uint (expo v) \<le> 2 ^ LENGTH('e) - 1" using uint_lt2p[of "expo v"] by simp
  have f: "uint (fraction v) < 2 ^ LENGTH('f)" by (rule uint_lt2p)
  show "0 \<le> magnitude v" by (simp add: magnitude_def)
  have "magnitude v < (2 ^ LENGTH('e) - 1) * 2 ^ LENGTH('f) + 2 ^ LENGTH('f)"
    unfolding magnitude_def using e f
    by (intro add_le_less_mono mult_right_mono) auto
  also have "\<dots> = 2 ^ (LENGTH('e) + LENGTH('f))" by (simp add: algebra_simps power_add)
  finally show "magnitude v < 2 ^ (LENGTH('e) + LENGTH('f))" .
qed



lemma bit_ieee_bits:
  fixes v :: float32
  shows "bit (ieee_bits v :: 32 word) n \<longleftrightarrow>
     (n < 23 \<and> bit (fraction v) n) \<or> (23 \<le> n \<and> n < 31 \<and> bit (expo v) (n - 23)) \<or> (n = 31 \<and> sign v)"
  by (auto simp add: ieee_bits_def bit_simps dest: bit_imp_le_length)

lemma float_of_bits_inverse: "float_of_bits (ieee_bits v) = v"
proof -
  have 1: "bit (ieee_bits v :: 32 word) 31 = sign v" by (simp add: bit_ieee_bits)
  have 2: "ucast (drop_bit 23 (ieee_bits v :: 32 word)) = expo v"
    by (rule bit_eqI) (auto simp add: bit_simps bit_ieee_bits dest: bit_imp_le_length)
  have 3: "ucast (ieee_bits v :: 32 word) = fraction v"
    by (rule bit_eqI) (auto simp add: bit_simps bit_ieee_bits dest: bit_imp_le_length)
  show ?thesis
    by (simp add: float_of_bits_def 1 2 3 Ieee_def sign_def expo_def fraction_def)
qed

lemma uint_ieee_bits:
  fixes v :: float32
  shows "uint (ieee_bits v :: 32 word) = (if sign v then 2 ^ 31 else 0) + magnitude v"
proof -
  have "uint (ieee_bits v :: 32 word) = push_bit 31 (of_bool (sign v)) OR (push_bit 23 (uint (expo v)) OR uint (fraction v))"
    apply (rule bit_eqI)
    apply (auto simp add: bit_simps bit_ieee_bits dest: bit_imp_le_length)
    done
  also have "\<dots> = push_bit 31 (of_bool (sign v)) + (push_bit 23 (uint (expo v)) OR uint (fraction v))"
    by (rule disjunctive_add_eq_or [symmetric], rule bit_eqI) (auto simp add: bit_simps dest: bit_imp_le_length)
  also have "push_bit 23 (uint (expo v)) OR uint (fraction v) = push_bit 23 (uint (expo v)) + uint (fraction v)"
    by (rule disjunctive_add_eq_or [symmetric], rule bit_eqI) (auto simp add: bit_simps dest: bit_imp_le_length)
  finally show ?thesis
    by (simp add: magnitude_def push_bit_eq_mult)
qed


section \<open>Hexadecimal text\<close>

lemma digit_char_hex: "0 \<le> d \<Longrightarrow> d < 16 \<Longrightarrow> digit_char d \<in> hex_chars"
  unfolding digit_char_def hex_chars_def by (rule nth_mem) simp

lemma digits_hex_chars: "0 \<le> n \<Longrightarrow> set (digits 16 n) \<subseteq> hex_chars"
proof (induction "16::int" n rule: digits.induct)
  case (1 n)
  show ?case
  proof (cases "n < 16")
    case True
    with 1 show ?thesis by (subst digits.simps) (simp add: digit_char_hex)
  next
    case False
    with 1 have "set (digits 16 (n div 16)) \<subseteq> hex_chars" by (simp add: pos_imp_zdiv_nonneg_iff)
    moreover have "digit_char (n mod 16) \<in> hex_chars" by (rule digit_char_hex) simp_all
    ultimately show ?thesis using False by (subst digits.simps) simp
  qed
qed

lemma length_digits: "0 \<le> n \<Longrightarrow> n < 16 ^ m \<Longrightarrow> 0 < m \<Longrightarrow> length (digits 16 n) \<le> m"
proof (induction "16::int" n arbitrary: m rule: digits.induct)
  case (1 n)
  show ?case
  proof (cases "n < 16")
    case True
    with 1 show ?thesis by (subst digits.simps) simp
  next
    case False
    obtain m' where m: "m = Suc m'" using \<open>0 < m\<close> by (cases m) auto
    have "m' \<noteq> 0" using False 1(3) m by (cases m') auto
    moreover have "n div 16 < 16 ^ m'"
    proof -
      have "n = 16 * (n div 16) + n mod 16" by simp
      moreover have "0 \<le> n mod 16" by simp
      moreover have "n < 16 * 16 ^ m'" using 1(3) m by simp
      ultimately show ?thesis by linarith
    qed
    ultimately have "length (digits 16 (n div 16)) \<le> m'"
      using 1(1)[of m'] False 1(2) by (simp add: pos_imp_zdiv_nonneg_iff)
    then show ?thesis using False m by (subst digits.simps) simp
  qed
qed


lemma digits_nonempty: "digits b n \<noteq> []"
  by (subst digits.simps) simp

lemma length_hex8: "length (hex8 u) = 8"
proof -
  have "uint u < 16 ^ 8" using uint_lt2p[of u] by simp
  then have "length (digits 16 (uint u)) \<le> 8" by (intro length_digits) simp_all
  then show ?thesis by (simp add: hex8_def)
qed

lemma set_hex8: "set (hex8 u) \<subseteq> hex_chars"
  using digits_hex_chars[of "uint u"] by (auto simp: hex8_def hex_chars_def)

lemma newline_notin_hex: "CHR 0x0A \<notin> hex_chars"
  by (simp add: hex_chars_def)

lemma split_lines_line: "CHR 0x0A \<notin> set l \<Longrightarrow> split_lines (l @ CHR 0x0A # cs) = l # split_lines cs"
  by (induction l) auto

lemma split_lines_concat:
  "\<forall>l \<in> set ls. CHR 0x0A \<notin> set l \<Longrightarrow> split_lines (concat (map (\<lambda>l. l @ [CHR 0x0A]) ls)) = ls"
  by (induction ls) (auto simp: split_lines_line)

section \<open>The loop and the run\<close>


lemma written_None [simp]: "written None t = t"
  by (simp add: written_def)

lemma loop_on_bad:
  assumes "bad ofs"
  shows "buf (loop exp_d en k ofs) = buf ofs \<and> bad (loop exp_d en k ofs)"
  using assms
proof (induction exp_d en k ofs rule: loop.induct)
  case (1 exp_d en k ofs)
  have b: "loop_body exp_d en k ofs = ofs\<lparr>width := 8\<rparr>"
    using 1(2) by (simp add: loop_body_def put_u32_def put_str_def setw_def Let_def)
  show ?case
  proof (cases "k \<le> STEPS")
    case True
    then show ?thesis using 1(1)[OF True] 1(2) by (subst (1 2) loop.simps) (simp add: b)
  next
    case False
    then show ?thesis using 1(2) by (subst (1 2) loop.simps) simp
  qed
qed

lemma loop_body_fields:
  fixes exp_d :: "float64 \<Rightarrow> float64" and en :: endian and k :: int
  assumes "\<not> bad ofs" "base ofs = Hex" "fill ofs = CHR ''0''"
  defines "t \<equiv> hex8 (sample_u exp_d en k) @ [CHR 0x0A]"
  shows "buf (loop_body exp_d en k ofs) = buf ofs @ written (room ofs) t"
    and "bad (loop_body exp_d en k ofs) \<longleftrightarrow> (case room ofs of None \<Rightarrow> False | Some n \<Rightarrow> n < 9)"
    and "room (loop_body exp_d en k ofs) = map_option (\<lambda>n. n - 9) (room ofs)"
    and "base (loop_body exp_d en k ofs) = Hex" and "fill (loop_body exp_d en k ofs) = CHR ''0''"
proof -
  have l: "length (hex8 (sample_u exp_d en k)) = 8" by (rule length_hex8)
  have h: "pad (setw 8 ofs) (digits 16 (uint (sample_u exp_d en k))) = hex8 (sample_u exp_d en k)"
    using assms(3) by (simp add: pad_def setw_def hex8_def)
  show "buf (loop_body exp_d en k ofs) = buf ofs @ written (room ofs) t"
    "bad (loop_body exp_d en k ofs) \<longleftrightarrow> (case room ofs of None \<Rightarrow> False | Some n \<Rightarrow> n < 9)"
    "room (loop_body exp_d en k ofs) = map_option (\<lambda>n. n - 9) (room ofs)"
    "base (loop_body exp_d en k ofs) = Hex" "fill (loop_body exp_d en k ofs) = CHR ''0''"
    using assms(1,2,3) l h
    by (auto simp add: loop_body_def put_u32_def put_str_def Let_def emit_def radix_def
        pad_def written_def t_def setw_def split: option.splits)
qed


lemma table_text_step:
  "k \<le> STEPS \<Longrightarrow>
     table_text exp_d en k = (hex8 (sample_u exp_d en k) @ [CHR 0x0A]) @ table_text exp_d en (k + 1)"
  by (simp add: table_text_def upto_rec1)

lemma table_text_end: "\<not> k \<le> STEPS \<Longrightarrow> table_text exp_d en k = []"
  by (simp add: table_text_def)

lemma loop_written:
  assumes "\<not> bad ofs" "base ofs = Hex" "fill ofs = CHR ''0''"
  shows "buf (loop exp_d en k ofs) = buf ofs @ written (room ofs) (table_text exp_d en k)
       \<and> (bad (loop exp_d en k ofs) \<longleftrightarrow>
            (case room ofs of None \<Rightarrow> False | Some n \<Rightarrow> n < length (table_text exp_d en k)))"
  using assms
proof (induction exp_d en k ofs rule: loop.induct)
  case (1 exp_d en k ofs)
  show ?case
  proof (cases "k \<le> STEPS")
    case False
    then show ?thesis using 1(2)
      by (subst (1 2) loop.simps) (simp add: table_text_end written_def split: option.splits)
  next
    case True
    define t where "t = hex8 (sample_u exp_d en k) @ [CHR 0x0A]"
    let ?T = "table_text exp_d en (k + 1)"
    let ?b = "loop_body exp_d en k ofs"
    note f = loop_body_fields[OF 1(2,3,4), of exp_d en k, folded t_def]
    note ts = table_text_step[OF True, of exp_d en, folded t_def]
    have lt: "length t = 9" by (simp add: t_def length_hex8)
    have st: "loop exp_d en k ofs = loop exp_d en (k + 1) ?b"
      using True by (subst loop.simps) simp
    show ?thesis
    proof (cases "bad ?b")
      case True
      then obtain n where n: "room ofs = Some n" "n < 9"
        using f(2) by (auto split: option.splits)
      have "buf (loop exp_d en (k + 1) ?b) = buf ?b \<and> bad (loop exp_d en (k + 1) ?b)"
        using True by (rule loop_on_bad)
      then show ?thesis
        using n lt f(1) by (simp add: st ts written_def)
    next
      case False
      have ih: "buf (loop exp_d en (k + 1) ?b) = buf ?b @ written (room ?b) ?T
        \<and> (bad (loop exp_d en (k + 1) ?b) \<longleftrightarrow>
            (case room ?b of None \<Rightarrow> False | Some n \<Rightarrow> n < length ?T))"
        using \<open>k \<le> STEPS\<close> False f(4,5) by (rule 1(1))
      show ?thesis
      proof (cases "room ofs")
        case None
        then show ?thesis using ih f(1,3)
          by (simp add: st ts)
      next
        case (Some n)
        then have "9 \<le> n" using False f(2) by simp
        then show ?thesis using ih f(1,3) Some lt
          by (auto simp add: st ts written_def)
      qed
    qed
  qed
qed


lemma writes_succeed_iff:
  "writes_succeed exp_d en w \<longleftrightarrow>
     \<not> bad (loop exp_d en 0 (setfill (CHR ''0'') (set_hex (new_ostream (disk_room w out_path)))))"
proof -
  let ?s = "setfill (CHR ''0'') (set_hex (new_ostream (disk_room w out_path)))"
  have "\<not> bad ?s" "base ?s = Hex" "fill ?s = CHR ''0''" "room ?s = disk_room w out_path"
    by (simp_all add: setfill_def set_hex_def new_ostream_def)
  then show ?thesis
    using loop_written[of ?s exp_d en 0]
    by (auto simp add: writes_succeed_def split: option.splits)
qed

lemma main_success:
  assumes "can_open w out_path"
  shows "main exp_d en w =
    (0, w\<lparr>files := (files w)(out_path \<mapsto> written (disk_room w out_path) (table_text exp_d en 0)),
          cout := cout w @ done_msg,
          events := events w @ [EvOpen out_path,
            EvClose out_path (written (disk_room w out_path) (table_text exp_d en 0)),
            EvCout done_msg]\<rparr>)"
proof -
  let ?s = "setfill (CHR ''0'') (set_hex (new_ostream (disk_room w out_path)))"
  have "\<not> bad ?s" "base ?s = Hex" "fill ?s = CHR ''0''" "room ?s = disk_room w out_path" "buf ?s = []"
    by (simp_all add: setfill_def set_hex_def new_ostream_def)
  then have "buf (loop exp_d en 0 ?s) = written (disk_room w out_path) (table_text exp_d en 0)"
    using loop_written[of ?s exp_d en 0] by simp
  then show ?thesis using assms by (simp add: main_def Let_def)
qed

lemma main_failure:
  assumes "\<not> can_open w out_path"
  shows "main exp_d en w =
    (1, w\<lparr>cerr := cerr w @ open_failed_msg, events := events w @ [EvCerr open_failed_msg]\<rparr>)"
  using assms by (simp add: main_def)

lemma written_all:
  "writes_succeed exp_d en w \<Longrightarrow> written (disk_room w out_path) (table_text exp_d en 0) = table_text exp_d en 0"
  by (auto simp add: writes_succeed_def written_def split: option.splits)

lemma table_text_lines:
  "table_text exp_d en 0 =
     concat (map (\<lambda>l. l @ [CHR 0x0A]) (map (\<lambda>i. hex8 (sample_u exp_d en i)) [0 .. STEPS]))"
  by (simp add: table_text_def comp_def)

lemma table_lines:
  "split_lines (table_text exp_d en 0) = map (\<lambda>i. hex8 (sample_u exp_d en i)) [0 .. STEPS]"
proof -
  have "split_lines (concat (map (\<lambda>l. l @ [CHR 0x0A]) (map (\<lambda>i. hex8 (sample_u exp_d en i)) [0 .. STEPS])))
      = map (\<lambda>i. hex8 (sample_u exp_d en i)) [0 .. STEPS]"
    using set_hex8 newline_notin_hex by (intro split_lines_concat) auto
  then show ?thesis by (simp only: table_text_lines)
qed

lemma output_lines_success:
  assumes "can_open w out_path" "writes_succeed exp_d en w"
  shows "output_lines exp_d en w = map (\<lambda>i. hex8 (sample_u exp_d en i)) [0 .. STEPS]"
  using assms by (simp add: output_lines_def output_file_def main_success written_all table_lines)

lemma output_line_nth:
  assumes "can_open w out_path" "writes_succeed exp_d en w" "0 \<le> k" "k \<le> 1024"
  shows "output_lines exp_d en w ! nat k = hex8 (sample_u exp_d en k)"
proof -
  have "[0 .. 1024] ! nat k = 0 + int (nat k)"
    using assms by (intro nth_upto) simp
  moreover have "nat k < length [0 .. 1024]" using assms by simp
  ultimately show ?thesis
    using assms by (simp add: output_lines_success STEPS_def)
qed

lemma take_blocks:
  "\<forall>b \<in> set bs. length b = m \<Longrightarrow> take (m * j) (concat bs) = concat (take j bs)"
proof (induction bs arbitrary: j)
  case Nil
  show ?case by simp
next
  case (Cons b bs)
  show ?case
  proof (cases j)
    case 0
    then show ?thesis by simp
  next
    case (Suc i)
    have "take (m * Suc i) (b @ concat bs) = b @ take (m * i) (concat bs)"
      using Cons.prems by simp
    then show ?thesis using Cons Suc by simp
  qed
qed

lemma output_lines_full_disk:
  "fst (main exp_d en full_disk_world) = 0"
  "output_lines exp_d en full_disk_world = take 455 (map (\<lambda>i. hex8 (sample_u exp_d en i)) [0 .. STEPS])"
  "length (output_lines exp_d en full_disk_world) = 455"
  "cout (snd (main exp_d en full_disk_world)) = done_msg"
proof -
  let ?ls = "map (\<lambda>i. hex8 (sample_u exp_d en i)) [0 .. STEPS]"
  let ?bs = "map (\<lambda>l. l @ [CHR 0x0A]) ?ls"
  have o: "can_open full_disk_world out_path" "disk_room full_disk_world out_path = Some 4095"
    "cout full_disk_world = []"
    by (simp_all add: full_disk_world_def fresh_world_def)
  show "fst (main exp_d en full_disk_world) = 0" by (simp add: main_success[OF o(1)])
  show "cout (snd (main exp_d en full_disk_world)) = done_msg" by (simp add: main_success[OF o(1)] o(3))
  have "\<forall>b \<in> set ?bs. length b = 9" by (auto simp add: length_hex8)
  then have "take (9 * 455) (concat ?bs) = concat (take 455 ?bs)" by (rule take_blocks)
  then have "take 4095 (table_text exp_d en 0) = concat (map (\<lambda>l. l @ [CHR 0x0A]) (take 455 ?ls))"
    by (simp add: table_text_lines take_map)
  moreover have "split_lines (concat (map (\<lambda>l. l @ [CHR 0x0A]) (take 455 ?ls))) = take 455 ?ls"
  proof (rule split_lines_concat, rule ballI)
    fix l assume "l \<in> set (take 455 ?ls)"
    then have "l \<in> set ?ls" by (rule in_set_takeD)
    then show "CHR 0x0A \<notin> set l" using set_hex8 newline_notin_hex by auto
  qed
  ultimately show l: "output_lines exp_d en full_disk_world = take 455 ?ls"
    by (simp add: output_lines_def output_file_def main_success[OF o(1)] o(2) written_def)
  show "length (output_lines exp_d en full_disk_world) = 455"
    by (simp add: l STEPS_def)
qed

lemma length_table_text: "length (table_text exp_d en 0) = 9225"
proof -
  have "length (table_text exp_d en k) = 9 * nat (STEPS + 1 - k)" for k
  proof (induction "nat (STEPS + 1 - k)" arbitrary: k)
    case 0
    then have "\<not> k \<le> STEPS" by simp
    then show ?case using 0 by (simp add: table_text_end)
  next
    case (Suc n)
    then have k: "k \<le> STEPS" by simp
    have "n = nat (STEPS + 1 - (k + 1))" using Suc(2) by simp
    then have "length (table_text exp_d en (k + 1)) = 9 * nat (STEPS + 1 - (k + 1))" by (rule Suc(1))
    then show ?case using k Suc(2) by (simp add: table_text_step length_hex8)
  qed
  then show ?thesis by (simp add: STEPS_def)
qed

section \<open>Rounding\<close>


lemma round_half_even_cases:
  "round_half_even q = \<lfloor>q\<rfloor> \<or> round_half_even q = \<lfloor>q\<rfloor> + 1"
  by (simp add: round_half_even_def Let_def)

lemma round_half_even_error: "\<bar>of_int (round_half_even q) - q\<bar> \<le> 1 / 2"
proof -
  have "of_int \<lfloor>q\<rfloor> \<le> q" "q < of_int \<lfloor>q\<rfloor> + 1" by linarith+
  then show ?thesis
    by (auto simp add: round_half_even_def Let_def abs_le_iff)
qed

lemma round_half_even_of_int [simp]: "round_half_even (of_int n) = n"
  by (simp add: round_half_even_def)

lemma round_half_even_mono: "q \<le> q' \<Longrightarrow> round_half_even q \<le> round_half_even q'"
proof -
  assume le: "q \<le> q'"
  have fl: "\<lfloor>q\<rfloor> \<le> \<lfloor>q'\<rfloor>" using le by (rule floor_mono)
  show ?thesis
  proof (cases "\<lfloor>q\<rfloor> = \<lfloor>q'\<rfloor>")
    case True
    then show ?thesis using le
      by (auto simp add: round_half_even_def Let_def)
  next
    case False
    then have "\<lfloor>q\<rfloor> + 1 \<le> \<lfloor>q'\<rfloor>" using fl by simp
    moreover have "round_half_even q \<le> \<lfloor>q\<rfloor> + 1" using round_half_even_cases[of q] by auto
    moreover have "\<lfloor>q'\<rfloor> \<le> round_half_even q'" using round_half_even_cases[of q'] by auto
    ultimately show ?thesis by linarith
  qed
qed

lemma round_half_even_ge: "of_int n \<le> q \<Longrightarrow> n \<le> round_half_even q"
  using round_half_even_mono[of "of_int n" q] by simp

lemma round_half_even_le: "q \<le> of_int n \<Longrightarrow> round_half_even q \<le> n"
  using round_half_even_mono[of q "of_int n"] by simp

lemma binade_bounds:
  assumes "0 \<le> y"
  shows "y / 2 ^ binade fw y < 2 ^ (fw + 1)"
    and "0 < binade fw y \<Longrightarrow> 2 ^ fw \<le> y / 2 ^ binade fw y"
proof -
  let ?n = "\<lfloor>y\<rfloor>"
  let ?b = "bitlen ?n"
  let ?e = "binade fw y"
  have n0: "0 \<le> ?n" using assms by simp
  have yn: "of_int ?n \<le> y" "y < of_int ?n + 1" by linarith+
  have up: "y < 2 ^ nat ?b"
  proof (cases "?n = 0")
    case True
    then show ?thesis using yn by simp
  next
    case False
    then have "0 < ?n" using n0 by linarith
    then have "?n < 2 ^ nat ?b" by (rule bitlen_bounds[THEN conjunct2])
    then have "?n + 1 \<le> 2 ^ nat ?b" by simp
    then have "(of_int (?n + 1) :: rat) \<le> of_int (2 ^ nat ?b)" by (simp only: of_int_le_iff)
    then show ?thesis using yn by simp
  qed
  have "nat ?b \<le> fw + 1 + ?e" by (simp add: binade_def)
  then have "(2::rat) ^ nat ?b \<le> 2 ^ (fw + 1 + ?e)" by (intro power_increasing) simp_all
  then have "y < 2 ^ (fw + 1) * 2 ^ ?e" using up by (simp add: power_add)
  then show "y / 2 ^ ?e < 2 ^ (fw + 1)" by (simp add: pos_divide_less_eq)
  assume e: "0 < ?e"
  then have b: "?b = int fw + 1 + int ?e" by (simp add: binade_def)
  then have "?n \<noteq> 0" by auto
  then have "0 < ?n" using n0 by linarith
  then have "2 ^ nat (?b - 1) \<le> ?n" by (rule bitlen_bounds[THEN conjunct1])
  moreover have "nat (?b - 1) = fw + ?e" using b by simp
  ultimately have "2 ^ (fw + ?e) \<le> ?n" by simp
  then have "(of_int (2 ^ (fw + ?e)) :: rat) \<le> of_int ?n" by (simp only: of_int_le_iff)
  then have "(2::rat) ^ fw * 2 ^ ?e \<le> of_int ?n" by (simp add: power_add)
  also have "\<dots> \<le> y" by (rule of_int_floor_le)
  finally show "2 ^ fw \<le> y / 2 ^ ?e" by (simp add: pos_le_divide_eq)
qed


lemma round_sig_range:
  fixes fw :: nat and y :: rat
  assumes "0 \<le> y"
  defines "r \<equiv> round_half_even (y / 2 ^ binade fw y)"
  shows "0 \<le> r" "r \<le> 2 ^ (fw + 1)" "0 < binade fw y \<Longrightarrow> 2 ^ fw \<le> r"
proof -
  have "(of_int 0 :: rat) \<le> y / 2 ^ binade fw y" using assms by simp
  then show "0 \<le> r" unfolding r_def by (rule round_half_even_ge)
  have "y / 2 ^ binade fw y \<le> of_int (2 ^ (fw + 1))"
    using binade_bounds(1)[OF assms(1), of fw] by simp
  then show "r \<le> 2 ^ (fw + 1)" unfolding r_def by (rule round_half_even_le)
  assume "0 < binade fw y"
  then have "of_int (2 ^ fw) \<le> y / 2 ^ binade fw y"
    using binade_bounds(2)[OF assms(1), of fw] by simp
  then show "2 ^ fw \<le> r" unfolding r_def by (rule round_half_even_ge)
qed

lemma fp_units_pattern:
  assumes "0 \<le> r" "r \<le> 2 ^ (fw + 1)" "0 < e \<Longrightarrow> 2 ^ fw \<le> r"
  shows "fp_units fw (int e * 2 ^ fw + r) = r * 2 ^ e"
proof -
  let ?p = "int e * 2 ^ fw + r"
  have dm: "?p div 2 ^ fw = int e + r div 2 ^ fw" "?p mod 2 ^ fw = r mod 2 ^ fw"
    by simp_all
  consider "r < 2 ^ fw" | "2 ^ fw \<le> r" "r < 2 ^ (fw + 1)" | "r = 2 ^ (fw + 1)"
    using assms(2) by linarith
  then show ?thesis
  proof cases
    case 1
    then have "e = 0" using assms(3) by (cases e) auto
    then show ?thesis using 1 assms(1) by (simp add: fp_units_def)
  next
    case 2
    have "r div 2 ^ fw = 1"
      using 2 by (intro int_div_pos_eq[where r = "r - 2 ^ fw"]) simp_all
    moreover have "r mod 2 ^ fw = r - 2 ^ fw"
      using 2 by (intro int_mod_pos_eq[where q = 1]) simp_all
    ultimately show ?thesis by (simp add: fp_units_def dm nat_add_distrib)
  next
    case 3
    then have "r div 2 ^ fw = 2" "r mod 2 ^ fw = 0" by simp_all
    then show ?thesis using 3 by (simp add: fp_units_def dm nat_add_distrib)
  qed
qed

lemma fp_units_round_pattern:
  assumes "0 \<le> y"
  shows "fp_units fw (round_pattern fw y) = round_half_even (y / 2 ^ binade fw y) * 2 ^ binade fw y"
  unfolding round_pattern_def
  using round_sig_range[OF assms, of fw] by (intro fp_units_pattern) simp_all

lemma fp_units_mono:
  assumes "0 \<le> p" "p \<le> p'"
  shows "fp_units fw p \<le> fp_units fw p'"
proof -
  let ?E = "p div 2 ^ fw" and ?E' = "p' div 2 ^ fw"
  let ?F = "p mod 2 ^ fw" and ?F' = "p' mod 2 ^ fw"
  have E: "0 \<le> ?E" "?E \<le> ?E'" using assms by (simp_all add: pos_imp_zdiv_nonneg_iff zdiv_mono1)
  have F: "0 \<le> ?F" "?F < 2 ^ fw" "0 \<le> ?F'" "?F' < 2 ^ fw" by simp_all
  have p: "p = ?E * 2 ^ fw + ?F" "p' = ?E' * 2 ^ fw + ?F'"
    by (rule div_mult_mod_eq[symmetric])+
  consider "?E' = 0" | "?E = 0" "0 < ?E'" | "0 < ?E" "?E = ?E'" | "0 < ?E" "?E < ?E'"
    using E by linarith
  then show ?thesis
  proof cases
    case 1
    then show ?thesis using E assms by (simp add: fp_units_def)
  next
    case 2
    have "p < 2 ^ fw" using 2(1) p(1) F by simp
    also have "(2::int) ^ fw \<le> (2 ^ fw + ?F') * 1" using F by simp
    also have "\<dots> \<le> (2 ^ fw + ?F') * 2 ^ (nat ?E' - 1)"
      using F by (intro mult_left_mono) simp_all
    finally show ?thesis using 2 by (simp add: fp_units_def)
  next
    case 3
    then have "?F \<le> ?F'" using p assms(2) by (metis add_le_cancel_left)
    then show ?thesis using 3 by (simp add: fp_units_def)
  next
    case 4
    have "?F \<le> 2 ^ fw" by (rule less_imp_le) simp
    then have "(2 ^ fw + ?F) * 2 ^ (nat ?E - 1) \<le> (2 ^ fw + 2 ^ fw) * 2 ^ (nat ?E - 1)"
      by (intro mult_right_mono) simp_all
    also have "\<dots> = 2 ^ fw * 2 ^ (Suc (nat ?E - 1))" by simp
    also have "\<dots> \<le> 2 ^ fw * 2 ^ (nat ?E' - 1)"
      using 4 by (intro mult_left_mono power_increasing) auto
    also have "\<dots> \<le> (2 ^ fw + ?F') * 2 ^ (nat ?E' - 1)"
      using F by (intro mult_right_mono) simp_all
    finally show ?thesis using 4 by (simp add: fp_units_def)
  qed
qed

lemma fp_units_less_imp: "0 \<le> p' \<Longrightarrow> fp_units fw p < fp_units fw p' \<Longrightarrow> p < p'"
  using fp_units_mono[of p' p fw] by (cases "p < p'") auto


lemma binade_mono: "y \<le> y' \<Longrightarrow> binade fw y \<le> binade fw y'"
proof -
  assume "y \<le> y'"
  then have "\<lfloor>y\<rfloor> \<le> \<lfloor>y'\<rfloor>" by (rule floor_mono)
  then have "bitlen \<lfloor>y\<rfloor> \<le> bitlen \<lfloor>y'\<rfloor>"
    unfolding bitlen_def by (intro of_nat_mono floorlog_mono nat_mono)
  then show ?thesis by (simp add: binade_def)
qed

lemma round_pattern_mono:
  assumes "0 \<le> y" "y \<le> y'"
  shows "round_pattern fw y \<le> round_pattern fw y'"
proof -
  let ?e = "binade fw y" and ?e' = "binade fw y'"
  let ?r = "round_half_even (y / 2 ^ ?e)" and ?r' = "round_half_even (y' / 2 ^ ?e')"
  have y': "0 \<le> y'" using assms by simp
  have e: "?e \<le> ?e'" using assms(2) by (rule binade_mono)
  show ?thesis
  proof (cases "?e = ?e'")
    case True
    have "y / 2 ^ ?e \<le> y' / 2 ^ ?e" using assms(2) by (simp add: divide_right_mono)
    then have "?r \<le> round_half_even (y' / 2 ^ ?e)" by (rule round_half_even_mono)
    then show ?thesis by (simp add: round_pattern_def True[symmetric])
  next
    case False
    then have lt: "?e + 1 \<le> ?e'" using e by simp
    then have "0 < ?e'" by simp
    then have r': "2 ^ fw \<le> ?r'" using round_sig_range(3)[OF y', of fw] by simp
    have r: "?r \<le> 2 ^ (fw + 1)" using round_sig_range(2)[OF assms(1), of fw] by simp
    have "int ?e * 2 ^ fw + ?r \<le> (int ?e + 2) * 2 ^ fw" using r by (simp add: algebra_simps)
    also have "\<dots> \<le> (int ?e' + 1) * 2 ^ fw" using lt by (intro mult_right_mono) simp_all
    also have "\<dots> \<le> int ?e' * 2 ^ fw + ?r'" using r' by (simp add: algebra_simps)
    finally show ?thesis by (simp add: round_pattern_def)
  qed
qed

lemma round_pattern_nonneg: "0 \<le> y \<Longrightarrow> 0 \<le> round_pattern fw y"
  using round_sig_range(1)[of y fw] by (simp add: round_pattern_def)

lemma round_pattern_abs_error:
  assumes "0 \<le> y"
  shows "\<bar>of_int (fp_units fw (round_pattern fw y)) - y\<bar> \<le> 2 ^ binade fw y / 2"
proof -
  let ?e = "binade fw y"
  let ?q = "y / 2 ^ ?e"
  have "\<bar>of_int (round_half_even ?q) - ?q\<bar> * 2 ^ ?e \<le> 1 / 2 * 2 ^ ?e"
    using round_half_even_error[of ?q] by (intro mult_right_mono) simp_all
  moreover have "\<bar>of_int (round_half_even ?q) - ?q\<bar> * 2 ^ ?e
      = \<bar>of_int (round_half_even ?q) * 2 ^ ?e - y\<bar>"
  proof -
    have "\<bar>of_int (round_half_even ?q) - ?q\<bar> * 2 ^ ?e = \<bar>(of_int (round_half_even ?q) - ?q) * 2 ^ ?e\<bar>"
      by (simp add: abs_mult)
    also have "(of_int (round_half_even ?q) - ?q) * 2 ^ ?e = of_int (round_half_even ?q) * 2 ^ ?e - y"
      by (simp add: algebra_simps)
    finally show ?thesis .
  qed
  ultimately show ?thesis
    by (simp add: fp_units_round_pattern[OF assms])
qed


lemma round_pattern_rel_error:
  assumes "2 ^ fw \<le> y"
  shows "\<bar>of_int (fp_units fw (round_pattern fw y)) - y\<bar> \<le> y / 2 ^ (fw + 1)"
proof -
  have y0: "0 \<le> y" using assms by (rule order_trans[rotated]) simp
  have "(2::rat) ^ binade fw y \<le> y / 2 ^ fw"
  proof (cases "0 < binade fw y")
    case True
    then have "2 ^ fw \<le> y / 2 ^ binade fw y" using binade_bounds(2)[OF y0] by simp
    then show ?thesis by (simp add: pos_le_divide_eq mult.commute)
  next
    case False
    then show ?thesis using assms by (simp add: pos_le_divide_eq)
  qed
  then have "(2::rat) ^ binade fw y / 2 \<le> y / 2 ^ fw / 2" by (rule divide_right_mono) simp
  then show ?thesis using round_pattern_abs_error[OF y0, of fw] by simp
qed

lemma of_int_pow2_quotient:
  assumes "e \<le> j"
  shows "(of_int (m * 2 ^ j) :: rat) / 2 ^ e = of_int (m * 2 ^ (j - e))"
proof -
  have "(2::rat) ^ j = 2 ^ (j - e) * 2 ^ e"
    using assms by (simp add: power_add[symmetric])
  then show ?thesis by simp
qed

lemma round_pattern_exact:
  assumes "0 \<le> m" "m < 2 ^ (fw + 1)"
  shows "fp_units fw (round_pattern fw (of_int (m * 2 ^ j))) = m * 2 ^ j"
proof -
  let ?y = "of_int (m * 2 ^ j) :: rat"
  let ?e = "binade fw ?y"
  have y0: "0 \<le> ?y" using assms by simp
  have e: "?e \<le> j"
  proof (cases "m = 0")
    case True
    then show ?thesis by (simp add: binade_def)
  next
    case False
    then have m: "0 < m" using assms by simp
    have "bitlen m \<le> int (fw + 1) \<longleftrightarrow> 0 \<le> int (fw + 1) \<and> m < 2 ^ nat (int (fw + 1))"
      by (rule bitlen_le_iff_power)
    then have "bitlen m \<le> int (fw + 1)" using assms(2) by (simp only: nat_int) simp
    moreover have "?e = nat (bitlen (m * 2 ^ j) - int fw - 1)"
      by (simp only: binade_def floor_of_int)
    ultimately show ?thesis using bitlen_pow2[OF m, of j] by simp
  qed
  have "?y / 2 ^ ?e = of_int (m * 2 ^ (j - ?e))"
    using e by (rule of_int_pow2_quotient)
  then have "round_half_even (?y / 2 ^ ?e) = m * 2 ^ (j - ?e)"
    by (simp only: round_half_even_of_int)
  then have "fp_units fw (round_pattern fw ?y) = m * 2 ^ (j - ?e) * 2 ^ ?e"
    by (simp only: fp_units_round_pattern[OF y0])
  also have "\<dots> = m * 2 ^ j" using e by (simp add: power_add[symmetric])
  finally show ?thesis .
qed

lemma fp_units_infinity:
  assumes "2 \<le> ew"
  shows "fp_units fw ((2 ^ ew - 1) * 2 ^ fw) = 2 ^ fw * 2 ^ (2 ^ ew - 2)"
proof -
  have "(4::int) \<le> 2 ^ ew" using power_increasing[OF assms, of "2::int"] by simp
  then have "nat (2 ^ ew - 1) - 1 = 2 ^ ew - 2" "(2::int) ^ ew - 1 \<noteq> 0"
    by (simp_all add: nat_diff_distrib nat_power_eq)
  then show ?thesis by (simp add: fp_units_def)
qed

lemma magnitude_of_magnitude:
  assumes "0 \<le> p" "p < 2 ^ (LENGTH('e) + LENGTH('f))"
  shows "magnitude (of_magnitude s p :: ('e::len, 'f::len) ieee) = p"
proof -
  have dm: "p div 2 ^ LENGTH('f) * 2 ^ LENGTH('f) + p mod 2 ^ LENGTH('f) = p"
    by (rule div_mult_mod_eq)
  moreover have "0 \<le> p mod 2 ^ LENGTH('f)" by simp
  ultimately have "p div 2 ^ LENGTH('f) * 2 ^ LENGTH('f) \<le> p" by linarith
  also have "p < 2 ^ LENGTH('e) * 2 ^ LENGTH('f)" using assms(2) by (simp add: power_add)
  finally have "p div 2 ^ LENGTH('f) < 2 ^ LENGTH('e)" by simp
  then have "uint (of_int (p div 2 ^ LENGTH('f)) :: 'e word) = p div 2 ^ LENGTH('f)"
    using assms(1) by (simp add: uint_word_of_int pos_imp_zdiv_nonneg_iff)
  moreover have "uint (of_int (p mod 2 ^ LENGTH('f)) :: 'f word) = p mod 2 ^ LENGTH('f)"
    by (simp add: uint_word_of_int)
  ultimately show ?thesis
    by (simp add: magnitude_def of_magnitude_def Ieee_def expo_def fraction_def dm)
qed

lemma sign_of_magnitude [simp]: "sign (of_magnitude s p) = s"
  by (simp add: of_magnitude_def Ieee_def sign_def)


lemma infinity_pattern_bound:
  "(2 ^ ew - 1) * 2 ^ fw < (2::int) ^ (ew + fw)"
  by (simp add: power_add algebra_simps)

lemma fp_round_finite:
  fixes x :: rat
  defines "p \<equiv> round_pattern LENGTH('f) (x * 2 ^ unit_shift LENGTH('e) LENGTH('f))"
  assumes "0 \<le> x" "p < (2 ^ LENGTH('e) - 1) * 2 ^ LENGTH('f)"
  shows "magnitude (fp_round s x :: ('e::len, 'f::len) ieee) = p"
    and "is_finite (fp_round s x :: ('e, 'f) ieee)"
    and "sign (fp_round s x :: ('e, 'f) ieee) = s"
proof -
  let ?v = "fp_round s x :: ('e, 'f) ieee"
  have p0: "0 \<le> p" unfolding p_def using assms(2) by (intro round_pattern_nonneg) simp
  have rm: "round_magnitude LENGTH('e) LENGTH('f) x = p"
    using assms(3) by (simp add: round_magnitude_def p_def Let_def)
  have pb: "p < 2 ^ (LENGTH('e) + LENGTH('f))"
    using assms(3) infinity_pattern_bound[of "LENGTH('e)" "LENGTH('f)"] by linarith
  show m: "magnitude ?v = p"
    unfolding fp_round_def rm using p0 pb by (rule magnitude_of_magnitude)
  show "sign ?v = s" by (simp add: fp_round_def)
  have "uint (expo ?v) * 2 ^ LENGTH('f) \<le> magnitude ?v"
    by (simp add: magnitude_def)
  also have "\<dots> = p" by (rule m)
  also note assms(3)
  finally have "uint (expo ?v) < 2 ^ LENGTH('e) - 1" by simp
  moreover have "uint (- 1 :: 'e word) = 2 ^ LENGTH('e) - 1"
    by (simp add: unsigned_minus_1_eq_mask mask_eq_exp_minus_1)
  ultimately have "expo ?v \<noteq> - 1" by auto
  then show "is_finite ?v" by (simp add: is_finite_def)
qed

subsection \<open>The rounded value is the nearest, ties to even\<close>


lemma round_half_even_nearest:
  "\<bar>of_int (round_half_even q) - q\<bar> \<le> q - of_int \<lfloor>q\<rfloor>"
  "\<bar>of_int (round_half_even q) - q\<bar> \<le> of_int \<lfloor>q\<rfloor> + 1 - q"
proof -
  have "of_int \<lfloor>q\<rfloor> \<le> q" "q < of_int \<lfloor>q\<rfloor> + 1" by linarith+
  then show "\<bar>of_int (round_half_even q) - q\<bar> \<le> q - of_int \<lfloor>q\<rfloor>"
    "\<bar>of_int (round_half_even q) - q\<bar> \<le> of_int \<lfloor>q\<rfloor> + 1 - q"
    by (auto simp add: round_half_even_def Let_def abs_le_iff)
qed

lemma round_half_even_tie: "q - of_int \<lfloor>q\<rfloor> = 1 / 2 \<Longrightarrow> even (round_half_even q)"
  by (simp add: round_half_even_def Let_def)

text \<open>
  The two neighbours of \<open>y\<close> in the format, and what \<open>round_pattern\<close> does with them:
  no pattern has a value strictly between them, and the rounded value is the nearer
  one.
\<close>

lemma round_pattern_neighbours:
  fixes y :: rat and fw :: nat
  assumes "0 \<le> y" "0 \<le> p'"
  defines "P \<equiv> (2::rat) ^ binade fw y"
  defines "a \<equiv> of_int \<lfloor>y / 2 ^ binade fw y\<rfloor> * P"
  defines "c \<equiv> rat_of_int (fp_units fw (round_pattern fw y))"
  shows "a \<le> y" "y < a + P" "c = a \<or> c = a + P"
    "\<bar>c - y\<bar> \<le> y - a" "\<bar>c - y\<bar> \<le> a + P - y"
    "of_int (fp_units fw p') \<le> a \<or> a + P \<le> of_int (fp_units fw p')"
proof -
  let ?e = "binade fw y"
  let ?q = "y / 2 ^ ?e"
  let ?f = "\<lfloor>?q\<rfloor>"
  let ?r = "round_half_even ?q"
  have P: "0 < P" by (simp add: P_def)
  have yq: "y = ?q * P" by (simp add: P_def)
  have fq: "of_int ?f \<le> ?q" "?q < of_int ?f + 1" by linarith+
  have "of_int ?f * P \<le> ?q * P" using fq(1) P by (intro mult_right_mono) simp_all
  then show ay: "a \<le> y" unfolding a_def using yq by simp
  have "?q * P < (of_int ?f + 1) * P" using fq(2) P by (intro mult_strict_right_mono)
  then show ya: "y < a + P" unfolding a_def using yq by (simp add: algebra_simps)
  have c: "c = of_int ?r * P"
    unfolding c_def P_def by (simp add: fp_units_round_pattern[OF assms(1)])
  have "?r = ?f \<or> ?r = ?f + 1" by (rule round_half_even_cases)
  then show "c = a \<or> c = a + P" unfolding c a_def by (auto simp add: algebra_simps)
  have m: "\<bar>c - y\<bar> = \<bar>of_int ?r - ?q\<bar> * P"
  proof -
    have "c - y = (of_int ?r - ?q) * P" unfolding c using yq by (simp add: algebra_simps)
    then show ?thesis using P by (simp add: abs_mult)
  qed
  have "\<bar>of_int ?r - ?q\<bar> * P \<le> (?q - of_int ?f) * P"
    using round_half_even_nearest(1)[of ?q] P by (intro mult_right_mono) simp_all
  then show "\<bar>c - y\<bar> \<le> y - a" unfolding m a_def using yq by (simp add: algebra_simps)
  have "\<bar>of_int ?r - ?q\<bar> * P \<le> (of_int ?f + 1 - ?q) * P"
    using round_half_even_nearest(2)[of ?q] P by (intro mult_right_mono) simp_all
  then show "\<bar>c - y\<bar> \<le> a + P - y" unfolding m a_def using yq by (simp add: algebra_simps)
  have q0: "0 \<le> ?q" using assms(1) by simp
  then have f0: "0 \<le> ?f" by simp
  have "?q < of_int (2 ^ (fw + 1))" using binade_bounds(1)[OF assms(1), of fw] by simp
  then have fhi: "?f < 2 ^ (fw + 1)" by (simp only: floor_less_iff)
  have flo: "2 ^ fw \<le> ?f" if "0 < ?e"
  proof -
    have "of_int (2 ^ fw) \<le> ?q" using binade_bounds(2)[OF assms(1) that] by simp
    then show ?thesis by (simp only: le_floor_iff)
  qed
  have ulo: "fp_units fw (int ?e * 2 ^ fw + ?f) = ?f * 2 ^ ?e"
    using f0 fhi flo by (intro fp_units_pattern) simp_all
  have uhi: "fp_units fw (int ?e * 2 ^ fw + (?f + 1)) = (?f + 1) * 2 ^ ?e"
  proof (rule fp_units_pattern)
    show "0 \<le> ?f + 1" using f0 by simp
    show "?f + 1 \<le> 2 ^ (fw + 1)" using fhi by simp
    show "2 ^ fw \<le> ?f + 1" if "0 < ?e" using flo[OF that] by simp
  qed
  have plo: "0 \<le> int ?e * 2 ^ fw + ?f" using f0 by simp
  consider "p' \<le> int ?e * 2 ^ fw + ?f" | "int ?e * 2 ^ fw + (?f + 1) \<le> p'" by linarith
  then show "of_int (fp_units fw p') \<le> a \<or> a + P \<le> of_int (fp_units fw p')"
  proof cases
    case 1
    have "fp_units fw p' \<le> fp_units fw (int ?e * 2 ^ fw + ?f)"
      using assms(2) 1 by (rule fp_units_mono)
    then have "rat_of_int (fp_units fw p') \<le> of_int (?f * 2 ^ ?e)"
      unfolding ulo by (simp only: of_int_le_iff)
    then show ?thesis by (simp add: a_def P_def)
  next
    case 2
    have "0 \<le> int ?e * 2 ^ fw + (?f + 1)" using plo by simp
    then have "fp_units fw (int ?e * 2 ^ fw + (?f + 1)) \<le> fp_units fw p'"
      using 2 by (rule fp_units_mono)
    then have "rat_of_int ((?f + 1) * 2 ^ ?e) \<le> of_int (fp_units fw p')"
      unfolding uhi by (simp only: of_int_le_iff)
    then show ?thesis by (simp add: a_def P_def algebra_simps)
  qed
qed

lemma round_pattern_nearest:
  fixes y :: rat
  assumes "0 \<le> y" "0 \<le> p'"
  shows "\<bar>of_int (fp_units fw (round_pattern fw y)) - y\<bar> \<le> \<bar>of_int (fp_units fw p') - y\<bar>"
  using round_pattern_neighbours[OF assms, of fw] by linarith

lemma round_pattern_tie_even:
  fixes y :: rat
  assumes "0 \<le> y" "0 \<le> p'"
    and "fp_units fw p' \<noteq> fp_units fw (round_pattern fw y)"
    and "\<bar>of_int (fp_units fw p') - y\<bar> = \<bar>of_int (fp_units fw (round_pattern fw y)) - y\<bar>"
  shows "even (round_half_even (y / 2 ^ binade fw y))"
proof -
  let ?P = "(2::rat) ^ binade fw y"
  let ?q = "y / ?P"
  let ?a = "of_int \<lfloor>?q\<rfloor> * ?P"
  note n = round_pattern_neighbours[OF assms(1,2), of fw]
  have ne: "rat_of_int (fp_units fw p') \<noteq> of_int (fp_units fw (round_pattern fw y))"
    using assms(3) by (simp only: of_int_eq_iff) simp
  have "y - ?a = ?P / 2" using n ne assms(4) by linarith
  moreover have "y - ?a = (?q - of_int \<lfloor>?q\<rfloor>) * ?P" by (simp add: algebra_simps)
  ultimately have "(?q - of_int \<lfloor>?q\<rfloor>) * ?P = 1 / 2 * ?P" by simp
  moreover have "?P \<noteq> 0" by simp
  ultimately have "?q - of_int \<lfloor>?q\<rfloor> = 1 / 2" by (metis mult_right_cancel)
  then show ?thesis by (rule round_half_even_tie)
qed

section \<open>The sample points\<close>


lemma fp_round_exact:
  fixes x :: rat
  assumes "0 \<le> m" "m < 2 ^ (LENGTH('f) + 1)"
    and "x * 2 ^ unit_shift LENGTH('e) LENGTH('f) = of_int (m * 2 ^ j)"
    and "m * 2 ^ j < 2 ^ LENGTH('f) * 2 ^ (2 ^ LENGTH('e) - 2)"
    and "2 \<le> LENGTH('e)"
  shows "valof (fp_round s x :: ('e::len, 'f::len) ieee) = (if s then - x else x)"
    and "is_finite (fp_round s x :: ('e, 'f) ieee)"
    and "sign (fp_round s x :: ('e, 'f) ieee) = s"
proof -
  let ?S = "(2::rat) ^ unit_shift LENGTH('e) LENGTH('f)"
  let ?p = "round_pattern LENGTH('f) (x * ?S)"
  let ?inf = "(2 ^ LENGTH('e) - 1) * 2 ^ LENGTH('f) :: int"
  have u: "fp_units LENGTH('f) ?p = m * 2 ^ j"
    unfolding assms(3) using assms(1,2) by (rule round_pattern_exact)
  have "0 \<le> x * ?S" unfolding assms(3) using assms(1) by simp
  moreover have "0 < ?S" by simp
  ultimately have x0: "0 \<le> x" by (simp only: zero_le_mult_iff) linarith
  have "0 \<le> ?inf" by simp
  moreover have "fp_units LENGTH('f) ?p < fp_units LENGTH('f) ?inf"
    using assms(4) by (simp only: u fp_units_infinity[OF assms(5)])
  ultimately have lt: "?p < ?inf" by (rule fp_units_less_imp)
  have mag: "magnitude (fp_round s x :: ('e, 'f) ieee) = ?p"
    using x0 lt by (rule fp_round_finite)
  show "is_finite (fp_round s x :: ('e, 'f) ieee)" using x0 lt by (rule fp_round_finite)
  show sg: "sign (fp_round s x :: ('e, 'f) ieee) = s" by (simp add: fp_round_def)
  have "(of_int (m * 2 ^ j) :: rat) / ?S = x"
    unfolding assms(3)[symmetric] by simp
  then show "valof (fp_round s x :: ('e, 'f) ieee) = (if s then - x else x)"
    by (simp add: valof_def mag u sg del: of_int_mult of_int_power)
qed

lemma unit_shift_double: "unit_shift 11 52 = 1074"
  by (simp add: unit_shift_def bias_def)

lemma is_finite_not_special: "is_finite v \<Longrightarrow> \<not> is_nan v \<and> \<not> is_inf v"
  by (simp add: is_finite_def is_nan_def is_inf_def)

lemma is_zero_valof: "is_zero v \<Longrightarrow> valof v = 0"
  by (simp add: is_zero_def valof_def magnitude_def fp_units_def)

lemma int_to_double_exact:
  assumes "\<bar>i\<bar> \<le> 2 ^ 31"
  shows "valof (int_to_double i) = of_int i" "is_finite (int_to_double i)"
    "sign (int_to_double i) = (i < 0)"
proof -
  have 1: "0 \<le> \<bar>i\<bar>" "\<bar>i\<bar> < 2 ^ (LENGTH(52) + 1)" using assms by simp_all
  have 2: "(of_int \<bar>i\<bar> :: rat) * 2 ^ unit_shift LENGTH(11) LENGTH(52) = of_int (\<bar>i\<bar> * 2 ^ 1074)"
    by (simp add: unit_shift_double)
  have "\<bar>i\<bar> * 2 ^ 1074 \<le> 2 ^ 31 * 2 ^ 1074" using assms by (intro mult_right_mono) simp_all
  also have "\<dots> < (2::int) ^ LENGTH(52) * 2 ^ (2 ^ LENGTH(11) - 2)" by simp
  finally have 3: "\<bar>i\<bar> * 2 ^ 1074 < 2 ^ LENGTH(52) * 2 ^ (2 ^ LENGTH(11) - 2)" .
  have 4: "2 \<le> LENGTH(11)" by simp
  note r = fp_round_exact[where 'e = 11 and 'f = 52, OF 1 2 3 4]
  show "valof (int_to_double i) = of_int i"
    by (simp only: int_to_double_def r(1)) simp
  show "is_finite (int_to_double i)" unfolding int_to_double_def by (rule r(2))
  show "sign (int_to_double i) = (i < 0)" unfolding int_to_double_def by (rule r(3))
qed


lemma double_literal_of_int: "double_literal (of_int n) = int_to_double n"
  by (simp add: double_literal_def int_to_double_def)

lemma pow2_1074: "(2::rat) ^ 1074 = 128 * 2 ^ 1067"
proof -
  have "(2::rat) ^ 1074 = 2 ^ (7 + 1067)" by simp
  also have "\<dots> = 2 ^ 7 * 2 ^ 1067" by (rule power_add)
  finally show ?thesis by simp
qed

lemma fp_round_double_over_128:
  assumes "0 \<le> m" "m \<le> 2 ^ 31"
  shows "valof (fp_round s (of_int m / 128) :: float64) = (if s then - (of_int m / 128) else of_int m / 128)"
    and "is_finite (fp_round s (of_int m / 128) :: float64)"
    and "sign (fp_round s (of_int m / 128) :: float64) = s"
proof -
  have 1: "0 \<le> m" "m < 2 ^ (LENGTH(52) + 1)" using assms by simp_all
  have 2: "(of_int m / 128 :: rat) * 2 ^ unit_shift LENGTH(11) LENGTH(52) = of_int (m * 2 ^ 1067)"
    by (simp add: unit_shift_double pow2_1074)
  have "m * 2 ^ 1067 \<le> 2 ^ 31 * 2 ^ 1067" using assms by (intro mult_right_mono) simp_all
  also have "\<dots> < (2::int) ^ LENGTH(52) * 2 ^ (2 ^ LENGTH(11) - 2)" by simp
  finally have 3: "m * 2 ^ 1067 < 2 ^ LENGTH(52) * 2 ^ (2 ^ LENGTH(11) - 2)" .
  have 4: "2 \<le> LENGTH(11)" by simp
  note r = fp_round_exact[where 'e = 11 and 'f = 52, OF 1 2 3 4]
  show "valof (fp_round s (of_int m / 128) :: float64) = (if s then - (of_int m / 128) else of_int m / 128)"
    by (rule r)
  show "is_finite (fp_round s (of_int m / 128) :: float64)" by (rule r)
  show "sign (fp_round s (of_int m / 128) :: float64) = s" by (rule r)
qed

lemma STEP_exact: "valof STEP = 1 / 128" "is_finite STEP" "\<not> sign STEP"
proof -
  let ?a = "double_literal 1" and ?b = "double_literal 128"
  have a: "?a = int_to_double 1" using double_literal_of_int[of 1] by simp
  have b: "?b = int_to_double 128" using double_literal_of_int[of 128] by simp
  have va: "valof ?a = 1" "is_finite ?a" "\<not> sign ?a"
    unfolding a using int_to_double_exact[of 1] by simp_all
  have vb: "valof ?b = 128" "is_finite ?b" "\<not> sign ?b"
    unfolding b using int_to_double_exact[of 128] by simp_all
  have nz: "\<not> is_zero ?b" using is_zero_valof[of ?b] vb(1) by auto
  have "STEP = fp_round False (of_int 1 / 128)"
    using va vb nz is_finite_not_special[of ?a] is_finite_not_special[of ?b]
    by (simp add: STEP_def fp_div_def)
  then show "valof STEP = 1 / 128" "is_finite STEP" "\<not> sign STEP"
    using fp_round_double_over_128[of 1 False] by simp_all
qed

lemma sample_x_exact:
  assumes "0 \<le> k" "k \<le> 1024"
  shows "valof (sample_x k) = - of_int k / 128" "is_finite (sample_x k)"
    "sign (sample_x k) = (0 < k)"
proof -
  let ?a = "int_to_double (- k)"
  have a: "valof ?a = - of_int k" "is_finite ?a" "sign ?a = (0 < k)"
    using assms int_to_double_exact[of "- k"] by simp_all
  have "sample_x k = fp_round (sign ?a \<noteq> sign STEP) (\<bar>valof ?a\<bar> * \<bar>valof STEP\<bar>)"
    using a(2) STEP_exact(2) is_finite_not_special[of ?a] is_finite_not_special[of STEP]
    by (simp add: sample_x_def fp_mul_def)
  moreover have "\<bar>valof ?a\<bar> * \<bar>valof STEP\<bar> = of_int k / 128"
    by (simp only: a(1) STEP_exact(1)) (use assms in simp)
  moreover have "(sign ?a \<noteq> sign STEP) = (0 < k)"
    using a(3) STEP_exact(3) by simp
  ultimately have "sample_x k = fp_round (0 < k) (of_int k / 128)" by simp
  moreover have "k \<le> 2 ^ 31" using assms by simp
  ultimately show "valof (sample_x k) = - of_int k / 128" "is_finite (sample_x k)"
    "sign (sample_x k) = (0 < k)"
    using assms fp_round_double_over_128[of k "0 < k"] by auto
qed

section \<open>Parsing the hexadecimal text\<close>


lemma hex_digit_val_digit_char:
  assumes "0 \<le> d" "d < 16"
  shows "hex_digit_val (digit_char d) = Some d"
proof -
  have "d \<in> {0,1,2,3,4,5,6,7,8,9,10,11,12,13,14,15}" using assms by simp presburger
  then show ?thesis
    by (auto simp add: hex_digit_val_def digit_char_def upto_rec1)
qed

lemma parse_hex_from_append:
  "parse_hex_from acc (xs @ ys) =
     (case parse_hex_from acc xs of None \<Rightarrow> None | Some a \<Rightarrow> parse_hex_from a ys)"
  by (induction xs arbitrary: acc) (auto split: option.splits)

lemma parse_hex_from_digits: "0 \<le> n \<Longrightarrow> parse_hex_from 0 (digits 16 n) = Some n"
proof (induction "16::int" n rule: digits.induct)
  case (1 n)
  show ?case
  proof (cases "n < 16")
    case True
    with 1 show ?thesis by (subst digits.simps) (simp add: hex_digit_val_digit_char)
  next
    case False
    with 1 have "parse_hex_from 0 (digits 16 (n div 16)) = Some (n div 16)"
      by (simp add: pos_imp_zdiv_nonneg_iff)
    moreover have "hex_digit_val (digit_char (n mod 16)) = Some (n mod 16)"
      by (rule hex_digit_val_digit_char) simp_all
    ultimately show ?thesis using False
      by (subst digits.simps) (simp add: parse_hex_from_append)
  qed
qed

lemma parse_hex_from_zeros: "parse_hex_from 0 (replicate j (CHR ''0'')) = Some 0"
proof (induction j)
  case 0
  show ?case by simp
next
  case (Suc j)
  have "hex_digit_val (CHR ''0'') = Some 0"
    using hex_digit_val_digit_char[of 0] by (simp add: digit_char_def)
  then show ?case using Suc by simp
qed

lemma parse_hex_hex8: "parse_hex (hex8 u) = Some (uint u)"
proof -
  have "hex8 u \<noteq> []" using length_hex8[of u] by auto
  then show ?thesis
    by (simp add: parse_hex_def) (simp add: hex8_def parse_hex_from_append parse_hex_from_zeros parse_hex_from_digits)
qed

section \<open>The narrowing conversion\<close>


lemma unit_shift_float: "unit_shift 8 23 = 149"
  by (simp add: unit_shift_def bias_def)

lemma rp_one_hi: "round_pattern 23 ((1 + 1 / 2 ^ 25) * 2 ^ 149) = 1065353216"
  by code_simp

lemma rp_one_lo: "round_pattern 23 ((1 - 1 / 2 ^ 25) * 2 ^ 149) = 1065353216"
  by code_simp

lemma rp_low: "round_pattern 23 (1 / 8192 * 2 ^ 149) = 956301312"
  by code_simp


lemma fp_units_nonneg: "0 \<le> p \<Longrightarrow> 0 \<le> fp_units fw p"
  by (simp add: fp_units_def)

lemma magnitude_nonneg: "0 \<le> magnitude v"
  by (simp add: magnitude_def)

lemma valof_pos_sign: "0 < valof v \<Longrightarrow> \<not> sign v"
proof
  assume "0 < valof v" "sign v"
  moreover have "0 \<le> fp_units LENGTH('b) (magnitude v)"
    by (intro fp_units_nonneg magnitude_nonneg)
  then have "0 \<le> rat_of_int (fp_units LENGTH('b) (magnitude v)) / 2 ^ unit_shift LENGTH('a) LENGTH('b)"
    by simp
  ultimately show False
    by (simp add: valof_def)
qed

lemma double_to_float_finite:
  "is_finite d \<Longrightarrow> double_to_float d = fp_round (sign d) \<bar>valof d\<bar>"
  by (simp add: double_to_float_def is_finite_not_special)

text \<open>The narrowing conversion is monotone: bounds on the value bound the pattern.\<close>

lemma narrow_sandwich:
  assumes "is_finite d" "0 \<le> a" "a \<le> \<bar>valof d\<bar>" "\<bar>valof d\<bar> \<le> b"
    and "round_pattern 23 (b * 2 ^ 149) < 255 * 2 ^ 23"
  shows "round_pattern 23 (a * 2 ^ 149) \<le> magnitude (double_to_float d)"
    and "magnitude (double_to_float d) \<le> round_pattern 23 (b * 2 ^ 149)"
    and "magnitude (double_to_float d) = round_pattern 23 (\<bar>valof d\<bar> * 2 ^ 149)"
    and "is_finite (double_to_float d)"
    and "sign (double_to_float d) = sign d"
proof -
  let ?X = "\<bar>valof d\<bar>"
  let ?p = "round_pattern 23 (?X * 2 ^ 149)"
  have le: "?p \<le> round_pattern 23 (b * 2 ^ 149)"
    using assms(4) by (intro round_pattern_mono) simp_all
  then have lt: "round_pattern LENGTH(23) (?X * 2 ^ unit_shift LENGTH(8) LENGTH(23))
      < (2 ^ LENGTH(8) - 1) * 2 ^ LENGTH(23)"
    using assms(5) by (simp add: unit_shift_float)
  have X0: "0 \<le> ?X" by simp
  note r = fp_round_finite[where 'e = 8 and 'f = 23, OF X0 lt]
  show m: "magnitude (double_to_float d) = ?p"
    using r(1)[of "sign d"] by (simp add: double_to_float_finite[OF assms(1)] unit_shift_float)
  show "is_finite (double_to_float d)"
    using r(2)[of "sign d"] by (simp add: double_to_float_finite[OF assms(1)])
  show "sign (double_to_float d) = sign d"
    by (simp add: double_to_float_finite[OF assms(1)] fp_round_def)
  show "magnitude (double_to_float d) \<le> round_pattern 23 (b * 2 ^ 149)"
    using le m by simp
  have "round_pattern 23 (a * 2 ^ 149) \<le> ?p"
    using assms(2,3) by (intro round_pattern_mono) simp_all
  then show "round_pattern 23 (a * 2 ^ 149) \<le> magnitude (double_to_float d)"
    using m by simp
qed

section \<open>The exponential at the sample points\<close>


lemma exp_accurate_bounds:
  assumes "exp_accurate exp_d x"
  shows "(1 - 1 / 2 ^ 25) * exp (real_of_rat (valof x)) \<le> real_of_rat (valof (exp_d x))"
    and "real_of_rat (valof (exp_d x)) \<le> (1 + 1 / 2 ^ 25) * exp (real_of_rat (valof x))"
    and "is_finite (exp_d x)"
proof -
  let ?E = "exp (real_of_rat (valof x))" and ?X = "real_of_rat (valof (exp_d x))"
  have e: "\<bar>?X - ?E\<bar> \<le> ?E / 2 ^ 25" using assms by (simp add: exp_accurate_def)
  have "- (?X - ?E) \<le> ?E / 2 ^ 25" using e by (rule abs_le_D2)
  then show "(1 - 1 / 2 ^ 25) * ?E \<le> ?X" by (simp add: algebra_simps)
  have "?X - ?E \<le> ?E / 2 ^ 25" using e by (rule abs_le_D1)
  then show "?X \<le> (1 + 1 / 2 ^ 25) * ?E" by (simp add: algebra_simps)
  show "is_finite (exp_d x)" using assms by (simp add: exp_accurate_def)
qed

lemma exp_minus_8_lower: "1 / 6561 \<le> exp (- 8 :: real)"
proof -
  have "exp (8 :: real) = exp (of_nat 8 * 1)" by simp
  also have "\<dots> = exp 1 ^ 8" by (rule exp_of_nat_mult)
  also have "\<dots> \<le> 3 ^ 8" using exp_le by (intro power_mono) simp_all
  finally have "exp (8 :: real) \<le> 6561" by simp
  then have "1 / 6561 \<le> 1 / exp (8 :: real)" by (intro divide_left_mono) simp_all
  then show ?thesis by (simp add: exp_minus inverse_eq_divide)
qed

lemma exp_sample_range:
  assumes "0 \<le> k" "k \<le> 1024"
  shows "1 / 6561 \<le> exp (- real_of_int k / 128)" "exp (- real_of_int k / 128) \<le> 1"
proof -
  have "(- 8 :: real) \<le> - real_of_int k / 128" using assms by simp
  then have "exp (- 8 :: real) \<le> exp (- real_of_int k / 128)" by (simp only: exp_le_cancel_iff)
  then show "1 / 6561 \<le> exp (- real_of_int k / 128)" using exp_minus_8_lower by linarith
  have "- real_of_int k / 128 \<le> 0" using assms by simp
  then show "exp (- real_of_int k / 128) \<le> 1" by (simp only: exp_le_one_iff)
qed

lemma real_of_rat_sample_x:
  assumes "0 \<le> k" "k \<le> 1024"
  shows "real_of_rat (valof (sample_x k)) = - real_of_int k / 128"
  by (simp add: sample_x_exact(1)[OF assms] of_rat_divide of_rat_minus)

lemma sample_exp_value_range:
  assumes "0 \<le> k" "k \<le> 1024" "exp_accurate exp_d (sample_x k)"
  shows "1 / 8192 \<le> valof (exp_d (sample_x k))"
    and "valof (exp_d (sample_x k)) \<le> 1 + 1 / 2 ^ 25"
proof -
  let ?E = "exp (- real_of_int k / 128)" and ?X = "valof (exp_d (sample_x k))"
  note b = exp_accurate_bounds[OF assms(3), unfolded real_of_rat_sample_x[OF assms(1,2)]]
  note r = exp_sample_range[OF assms(1,2)]
  have c: "(1 - 1 / 2 ^ 25 :: real) = 33554431 / 33554432" "(1 + 1 / 2 ^ 25 :: real) = 33554433 / 33554432"
    by simp_all
  have "1 / 8192 \<le> real_of_rat ?X" using b(1) r(1) unfolding c by linarith
  moreover have "real_of_rat (1 / 8192) = 1 / 8192" by (simp add: of_rat_divide)
  ultimately have "real_of_rat (1 / 8192) \<le> real_of_rat ?X" by simp
  then show "1 / 8192 \<le> ?X" by (simp only: of_rat_less_eq)
  have "real_of_rat ?X \<le> 33554433 / 33554432" using b(2) r(2) unfolding c by linarith
  moreover have "real_of_rat (1 + 1 / 2 ^ 25) = 33554433 / 33554432"
    by (simp add: of_rat_divide of_rat_add of_rat_power)
  ultimately have "real_of_rat ?X \<le> real_of_rat (1 + 1 / 2 ^ 25)" by simp
  then show "?X \<le> 1 + 1 / 2 ^ 25" by (simp only: of_rat_less_eq)
qed


lemma round_pattern_strict_units:
  assumes "2 ^ 23 \<le> yb" "yb \<le> 255 / 256 * ya"
  shows "fp_units 23 (round_pattern 23 yb) < fp_units 23 (round_pattern 23 ya)"
proof -
  have yb0: "0 < yb" using assms(1) by (rule less_le_trans[rotated]) simp
  have "yb \<le> ya" using assms(2) yb0 by linarith
  then have ya: "2 ^ 23 \<le> ya" using assms(1) by linarith
  let ?ub = "rat_of_int (fp_units 23 (round_pattern 23 yb))"
  let ?ua = "rat_of_int (fp_units 23 (round_pattern 23 ya))"
  have n: "(2::rat) ^ (23 + 1) = 16777216" by simp
  have "\<bar>?ub - yb\<bar> \<le> yb / 2 ^ (23 + 1)" using assms(1) by (rule round_pattern_rel_error)
  then have b: "?ub - yb \<le> yb / 16777216" unfolding n by (rule abs_le_D1)
  have "\<bar>?ua - ya\<bar> \<le> ya / 2 ^ (23 + 1)" using ya by (rule round_pattern_rel_error)
  then have a: "- (?ua - ya) \<le> ya / 16777216" unfolding n by (rule abs_le_D2)
  have "?ub < ?ua" using a b assms(2) yb0 by linarith
  then show ?thesis by (simp only: of_int_less_iff)
qed

lemma sample_y_range:
  assumes "0 \<le> k" "k \<le> 1024" "exp_accurate exp_d (sample_x k)"
  shows "956301312 \<le> magnitude (sample_y exp_d k)"
    and "magnitude (sample_y exp_d k) \<le> 1065353216"
    and "magnitude (sample_y exp_d k) = round_pattern 23 (valof (exp_d (sample_x k)) * 2 ^ 149)"
    and "is_finite (sample_y exp_d k)"
    and "\<not> sign (sample_y exp_d k)"
proof -
  let ?d = "exp_d (sample_x k)"
  note v = sample_exp_value_range[OF assms]
  have pos: "0 < valof ?d" using v(1) by (rule less_le_trans[rotated]) simp
  then have ab: "\<bar>valof ?d\<bar> = valof ?d" by simp
  have fin: "is_finite ?d" using assms(3) by (rule exp_accurate_bounds)
  have 1: "(0::rat) \<le> 1 / 8192" by simp
  have 2: "1 / 8192 \<le> \<bar>valof ?d\<bar>" using v(1) ab by simp
  have 3: "\<bar>valof ?d\<bar> \<le> 1 + 1 / 2 ^ 25" using v(2) ab by simp
  have 4: "round_pattern 23 ((1 + 1 / 2 ^ 25) * 2 ^ 149) < 255 * 2 ^ 23" by (simp only: rp_one_hi) simp
  note s = narrow_sandwich[OF fin 1 2 3 4, unfolded rp_one_hi rp_low ab, folded sample_y_def]
  show "956301312 \<le> magnitude (sample_y exp_d k)" by (rule s)
  show "magnitude (sample_y exp_d k) \<le> 1065353216" by (rule s)
  show "magnitude (sample_y exp_d k) = round_pattern 23 (valof ?d * 2 ^ 149)" by (rule s)
  show "is_finite (sample_y exp_d k)" by (rule s)
  show "\<not> sign (sample_y exp_d k)" using s(5) valof_pos_sign[OF pos] by simp
qed

lemma uint_sample_u:
  "\<not> sign (sample_y exp_d k) \<Longrightarrow> uint (sample_u exp_d en k) = magnitude (sample_y exp_d k)"
  by (simp add: sample_u_def float_to_u32_bits uint_ieee_bits)

lemma uint_expo: "uint (expo v) = magnitude v div 2 ^ LENGTH('f)"
  for v :: "('e::len, 'f::len) ieee"
proof -
  have "magnitude v div 2 ^ LENGTH('f) = uint (expo v) + uint (fraction v) div 2 ^ LENGTH('f)"
    by (simp add: magnitude_def)
  also have "uint (fraction v) div 2 ^ LENGTH('f) = 0"
    by (intro div_pos_pos_trivial) simp_all
  finally show ?thesis by simp
qed

lemma fp_units_pos: "0 < p \<Longrightarrow> 0 < fp_units fw p"
proof -
  have "0 < 2 ^ fw + p mod 2 ^ fw"
    by (rule add_pos_nonneg) simp_all
  then have "0 < (2 ^ fw + p mod 2 ^ fw) * 2 ^ (nat (p div 2 ^ fw) - 1)"
    by (intro mult_pos_pos) simp_all
  then show "0 < p \<Longrightarrow> 0 < fp_units fw p"
    by (simp add: fp_units_def)
qed


lemma digits_leading:
  assumes "0 < d" "d < 16" "d * 16 ^ m \<le> n" "n < (d + 1) * 16 ^ m"
  shows "length (digits 16 n) = m + 1 \<and> hd (digits 16 n) = digit_char d"
  using assms(3,4)
proof (induction m arbitrary: n)
  case 0
  then have "n = d" by simp
  then show ?case using assms(1,2) by (subst (1 2) digits.simps) simp
next
  case (Suc m)
  define B T where "B = d * 16 ^ m" and "T = (d + 1) * 16 ^ m"
  have n: "16 * B \<le> n" "n < 16 * T" using Suc.prems by (simp_all add: B_def T_def)
  have "1 * 1 \<le> d * 16 ^ m" using assms(1) by (intro mult_mono) simp_all
  then have B: "1 \<le> B" by (simp add: B_def)
  have q: "n = 16 * (n div 16) + n mod 16" "0 \<le> n mod 16" "n mod 16 < 16" by simp_all
  have "B \<le> n div 16" "n div 16 < T" using n q by linarith+
  then have ih: "length (digits 16 (n div 16)) = m + 1 \<and> hd (digits 16 (n div 16)) = digit_char d"
    unfolding B_def T_def by (rule Suc.IH)
  then have ne: "digits 16 (n div 16) \<noteq> []" by auto
  have "\<not> n < 16" using n B by linarith
  then have "digits 16 n = digits 16 (n div 16) @ [digit_char (n mod 16)]"
    by (subst digits.simps) simp
  then show ?case using ih ne by simp
qed

lemma exp_step_upper: "exp (- 1 / 128 :: real) \<le> 128 / 129"
proof -
  have "1 + (1 / 128 :: real) \<le> exp (1 / 128)" by (rule exp_ge_add_one_self)
  then have "129 / 128 \<le> exp (1 / 128 :: real)" by simp
  then have "1 / exp (1 / 128 :: real) \<le> 1 / (129 / 128)"
    by (intro divide_left_mono) simp_all
  moreover have "exp (- 1 / 128 :: real) = 1 / exp (1 / 128)"
    using exp_minus[of "1 / 128 :: real"] by (simp add: inverse_eq_divide)
  ultimately show ?thesis by simp
qed

lemma sample_exp_step:
  assumes "0 \<le> k" "k < 1024"
    and "exp_accurate exp_d (sample_x k)" "exp_accurate exp_d (sample_x (k + 1))"
  shows "valof (exp_d (sample_x (k + 1))) \<le> 255 / 256 * valof (exp_d (sample_x k))"
proof -
  let ?Ea = "exp (- real_of_int k / 128)" and ?Eb = "exp (- real_of_int (k + 1) / 128)"
  let ?Xa = "valof (exp_d (sample_x k))" and ?Xb = "valof (exp_d (sample_x (k + 1)))"
  have ka: "0 \<le> k" "k \<le> 1024" and kb: "0 \<le> k + 1" "k + 1 \<le> 1024" using assms(1,2) by simp_all
  note a = exp_accurate_bounds[OF assms(3), unfolded real_of_rat_sample_x[OF ka]]
  note b = exp_accurate_bounds[OF assms(4), unfolded real_of_rat_sample_x[OF kb]]
  have c: "(1 - 1 / 2 ^ 25 :: real) = 33554431 / 33554432" "(1 + 1 / 2 ^ 25 :: real) = 33554433 / 33554432"
    by simp_all
  have "- real_of_int (k + 1) / 128 = - real_of_int k / 128 + (- 1 / 128)" by simp
  then have "?Eb = ?Ea * exp (- 1 / 128)" by (simp only: exp_add)
  also have "\<dots> \<le> ?Ea * (128 / 129)"
    using exp_step_upper by (intro mult_left_mono) simp_all
  finally have s: "?Eb \<le> ?Ea * (128 / 129)" .
  have "0 < ?Ea" by simp
  then have "real_of_rat ?Xb \<le> 255 / 256 * real_of_rat ?Xa"
    using a(1) b(2) s unfolding c by linarith
  moreover have "255 / 256 * real_of_rat ?Xa = real_of_rat (255 / 256 * ?Xa)"
    by (simp add: of_rat_mult of_rat_divide)
  ultimately have "real_of_rat ?Xb \<le> real_of_rat (255 / 256 * ?Xa)" by simp
  then show ?thesis by (simp only: of_rat_less_eq)
qed


section \<open>The first entry and the range of the entries\<close>


lemma hex8_one: "hex8 0x3f800000 = ''3f800000''"
  by code_simp

lemma float_of_bits_one: "float_of_bits 0x3f800000 = Ieee False 127 0"
  by code_simp

lemma fp_units_one: "fp_units 23 1065353216 = 2 ^ 149"
  by code_simp

lemma fp_units_low: "fp_units 23 956301312 = 2 ^ 136"
  by code_simp

lemma sample_y_first:
  assumes "exp_accurate exp_d (sample_x 0)"
  shows "magnitude (sample_y exp_d 0) = 1065353216" "\<not> sign (sample_y exp_d 0)"
proof -
  let ?d = "exp_d (sample_x 0)"
  have k: "(0::int) \<le> 0" "(0::int) \<le> 1024" by simp_all
  note b = exp_accurate_bounds[OF assms, unfolded real_of_rat_sample_x[OF k]]
  have "real_of_rat (1 - 1 / 2 ^ 25) \<le> real_of_rat (valof ?d)"
    using b(1) by (simp add: of_rat_diff of_rat_divide of_rat_power)
  then have lo: "1 - 1 / 2 ^ 25 \<le> valof ?d" by (simp only: of_rat_less_eq)
  have hi: "valof ?d \<le> 1 + 1 / 2 ^ 25" using k assms by (rule sample_exp_value_range)
  have pos: "0 < valof ?d" using lo by (rule less_le_trans[rotated]) simp
  then have ab: "\<bar>valof ?d\<bar> = valof ?d" by simp
  have 1: "(0::rat) \<le> 1 - 1 / 2 ^ 25" by simp
  have 2: "1 - 1 / 2 ^ 25 \<le> \<bar>valof ?d\<bar>" using lo ab by simp
  have 3: "\<bar>valof ?d\<bar> \<le> 1 + 1 / 2 ^ 25" using hi ab by simp
  have 4: "round_pattern 23 ((1 + 1 / 2 ^ 25) * 2 ^ 149) < 255 * 2 ^ 23" by (simp only: rp_one_hi) simp
  note s = narrow_sandwich[OF b(3) 1 2 3 4, unfolded rp_one_hi rp_one_lo, folded sample_y_def]
  show "magnitude (sample_y exp_d 0) = 1065353216" using s(1,2) by simp
  show "\<not> sign (sample_y exp_d 0)" using s(5) valof_pos_sign[OF pos] by simp
qed

lemma sample_u_first:
  assumes "exp_accurate exp_d (sample_x 0)"
  shows "sample_u exp_d en 0 = 0x3f800000"
proof -
  have "uint (sample_u exp_d en 0) = uint (0x3f800000 :: 32 word)"
    using sample_y_first[OF assms] by (simp add: uint_sample_u)
  then show ?thesis by (simp only: word_uint_eq_iff)
qed


lemma valof_nonneg_eq:
  fixes v :: "('e::len, 'f::len) ieee"
  assumes "\<not> sign v"
  shows "valof v = of_int (fp_units LENGTH('f) (magnitude v)) / 2 ^ unit_shift LENGTH('e) LENGTH('f)"
  using assms by (simp add: valof_def)

lemma sample_y_value:
  assumes "0 \<le> k" "k \<le> 1024" "exp_accurate exp_d (sample_x k)"
  shows "valof (sample_y exp_d k) = of_int (fp_units 23 (magnitude (sample_y exp_d k))) / 2 ^ 149"
    and "1 / 8192 \<le> valof (sample_y exp_d k)" and "valof (sample_y exp_d k) \<le> 1"
proof -
  let ?y = "sample_y exp_d k"
  let ?u = "fp_units 23 (magnitude ?y)"
  note r = sample_y_range[OF assms]
  show v: "valof ?y = of_int ?u / 2 ^ 149"
    using valof_nonneg_eq[OF r(5)] by (simp add: unit_shift_float)
  have "fp_units 23 956301312 \<le> ?u" using r(1) by (intro fp_units_mono) simp_all
  then have "(2::int) ^ 136 \<le> ?u" by (simp only: fp_units_low)
  then have "rat_of_int (2 ^ 136) \<le> of_int ?u" by (simp only: of_int_le_iff)
  then have "rat_of_int (2 ^ 136) / 2 ^ 149 \<le> of_int ?u / 2 ^ 149"
    by (rule divide_right_mono) simp
  then show "1 / 8192 \<le> valof ?y" unfolding v by simp
  have "?u \<le> fp_units 23 1065353216"
    using r(2) magnitude_nonneg by (intro fp_units_mono) simp_all
  then have "?u \<le> 2 ^ 149" by (simp only: fp_units_one)
  then have "rat_of_int ?u \<le> of_int (2 ^ 149)" by (simp only: of_int_le_iff)
  then have "rat_of_int ?u / 2 ^ 149 \<le> of_int (2 ^ 149) / 2 ^ 149"
    by (rule divide_right_mono) simp
  then show "valof ?y \<le> 1" unfolding v by simp
qed

lemma sample_y_normal:
  assumes "0 \<le> k" "k \<le> 1024" "exp_accurate exp_d (sample_x k)"
  shows "is_normal (sample_y exp_d k)"
proof -
  let ?y = "sample_y exp_d k"
  note r = sample_y_range[OF assms]
  have e: "uint (expo ?y) = magnitude ?y div 2 ^ 23" using uint_expo[of ?y] by simp
  have "956301312 div 2 ^ 23 \<le> magnitude ?y div 2 ^ 23" using r(1) by (intro zdiv_mono1) simp_all
  then have lo: "114 \<le> uint (expo ?y)" using e by simp
  have "magnitude ?y div 2 ^ 23 \<le> 1065353216 div 2 ^ 23" using r(2) by (intro zdiv_mono1) simp_all
  then have hi: "uint (expo ?y) \<le> 127" using e by simp
  have "expo ?y \<noteq> 0" using lo by auto
  moreover have "uint (- 1 :: 8 word) = 255"
    by (simp add: unsigned_minus_1_eq_mask mask_eq_exp_minus_1)
  then have "expo ?y \<noteq> - 1" using hi by auto
  ultimately show ?thesis by (simp add: is_normal_def)
qed

section \<open>The narrowed value is the nearest \<^verbatim>\<open>float\<close>\<close>


lemma valof_units:
  fixes z :: float32
  shows "valof z * 2 ^ 149 = (if sign z then - 1 else 1) * of_int (fp_units 23 (magnitude z))"
  by (simp add: valof_def unit_shift_float)

lemma abs_diff_scale:
  fixes v d s :: rat
  assumes "0 < s"
  shows "\<bar>v - d\<bar> * s = \<bar>v * s - d * s\<bar>"
proof -
  have "\<bar>v * s - d * s\<bar> = \<bar>(v - d) * s\<bar>" by (simp only: left_diff_distrib)
  also have "\<dots> = \<bar>v - d\<bar> * \<bar>s\<bar>" by (rule abs_mult)
  finally show ?thesis using assms by simp
qed

lemma sample_y_nearest:
  fixes z :: float32
  assumes "0 \<le> k" "k \<le> 1024" "exp_accurate exp_d (sample_x k)"
  defines "D \<equiv> valof (exp_d (sample_x k))"
  defines "y \<equiv> sample_y exp_d k"
  shows "\<bar>valof y - D\<bar> \<le> \<bar>valof z - D\<bar>"
    and "valof z \<noteq> valof y \<Longrightarrow> \<bar>valof z - D\<bar> = \<bar>valof y - D\<bar> \<Longrightarrow> even (magnitude y)"
    and "\<bar>valof y - D\<bar> \<le> D / 2 ^ 24"
proof -
  define Y where "Y = D * 2 ^ 149"
  define U where "U = rat_of_int (fp_units 23 (magnitude y))"
  define V where "V = rat_of_int (fp_units 23 (magnitude z))"
  note r = sample_y_range[OF assms(1,2,3), folded D_def y_def]
  have D: "1 / 8192 \<le> D" unfolding D_def using assms(1,2,3) by (rule sample_exp_value_range)
  have Y0: "0 \<le> Y" unfolding Y_def using D by simp
  have m: "magnitude y = round_pattern 23 Y" unfolding Y_def by (rule r(3))
  have vy: "valof y * 2 ^ 149 = U" using valof_units[of y] r(5) by (simp add: U_def)
  have vz: "valof z * 2 ^ 149 = (if sign z then - V else V)" using valof_units[of z] by (simp add: V_def)
  have V0: "0 \<le> V" unfolding V_def by (simp add: fp_units_nonneg magnitude_nonneg)
  have n1: "\<bar>U - Y\<bar> \<le> \<bar>V - Y\<bar>"
    unfolding U_def V_def m using Y0 magnitude_nonneg by (rule round_pattern_nearest)
  have "\<bar>U - Y\<bar> \<le> \<bar>rat_of_int (fp_units 23 0) - Y\<bar>"
    unfolding U_def m using Y0 by (rule round_pattern_nearest) simp
  then have n0: "\<bar>U - Y\<bar> \<le> Y" using Y0 by (simp add: fp_units_def)
  have sc: "\<bar>v - D\<bar> * 2 ^ 149 = \<bar>v * 2 ^ 149 - Y\<bar>" for v :: rat
    unfolding Y_def by (rule abs_diff_scale) simp
  have "\<bar>valof y * 2 ^ 149 - Y\<bar> \<le> \<bar>valof z * 2 ^ 149 - Y\<bar>"
  proof (cases "sign z")
    case True
    then show ?thesis unfolding vy vz using n0 V0 Y0 by simp
  next
    case False
    then show ?thesis unfolding vy vz using n1 by simp
  qed
  then have "\<bar>valof y - D\<bar> * 2 ^ 149 \<le> \<bar>valof z - D\<bar> * 2 ^ 149" by (simp only: sc)
  then show "\<bar>valof y - D\<bar> \<le> \<bar>valof z - D\<bar>" by simp
  have "2 ^ 23 \<le> Y"
  proof -
    have "(2::rat) ^ 23 \<le> 1 / 8192 * 2 ^ 149" by simp
    also have "\<dots> \<le> Y" unfolding Y_def using D by (rule mult_right_mono) simp
    finally show ?thesis .
  qed
  then have "\<bar>rat_of_int (fp_units 23 (round_pattern 23 Y)) - Y\<bar> \<le> Y / 2 ^ (23 + 1)"
    by (rule round_pattern_rel_error)
  then have "\<bar>valof y * 2 ^ 149 - Y\<bar> \<le> D / 2 ^ 24 * 2 ^ 149"
    unfolding vy U_def m by (simp add: Y_def)
  then have "\<bar>valof y - D\<bar> * 2 ^ 149 \<le> D / 2 ^ 24 * 2 ^ 149" by (simp only: sc)
  then show "\<bar>valof y - D\<bar> \<le> D / 2 ^ 24" by (simp only: mult_le_cancel_right) simp
  assume ne: "valof z \<noteq> valof y" and eq: "\<bar>valof z - D\<bar> = \<bar>valof y - D\<bar>"
  have ne': "valof z * 2 ^ 149 \<noteq> valof y * 2 ^ 149" using ne by simp
  have "\<bar>valof z - D\<bar> * 2 ^ 149 = \<bar>valof y - D\<bar> * 2 ^ 149" using eq by simp
  then have eq': "\<bar>valof z * 2 ^ 149 - Y\<bar> = \<bar>valof y * 2 ^ 149 - Y\<bar>" by (simp only: sc)
  have "\<exists>p'. 0 \<le> p' \<and> fp_units 23 p' \<noteq> fp_units 23 (round_pattern 23 Y)
      \<and> \<bar>rat_of_int (fp_units 23 p') - Y\<bar> = \<bar>rat_of_int (fp_units 23 (round_pattern 23 Y)) - Y\<bar>"
  proof (cases "sign z")
    case False
    then have "V \<noteq> U" "\<bar>V - Y\<bar> = \<bar>U - Y\<bar>" using ne' eq' vy vz by simp_all
    then show ?thesis
      unfolding U_def V_def m using magnitude_nonneg[of z] by (intro exI[of _ "magnitude z"]) auto
  next
    case True
    then have a: "- V \<noteq> U" "\<bar>- V - Y\<bar> = \<bar>U - Y\<bar>" using ne' eq' vy vz by simp_all
    then have "V = 0" using n0 V0 Y0 by linarith
    then have "0 \<noteq> U" "\<bar>0 - Y\<bar> = \<bar>U - Y\<bar>" using a by simp_all
    then show ?thesis
      unfolding U_def m by (intro exI[of _ 0]) (auto simp add: fp_units_def)
  qed
  then obtain p' where "0 \<le> p'" "fp_units 23 p' \<noteq> fp_units 23 (round_pattern 23 Y)"
    "\<bar>rat_of_int (fp_units 23 p') - Y\<bar> = \<bar>rat_of_int (fp_units 23 (round_pattern 23 Y)) - Y\<bar>"
    by blast
  then have "even (round_half_even (Y / 2 ^ binade 23 Y))"
    using Y0 by (intro round_pattern_tie_even[of Y p' 23]) simp_all
  then show "even (magnitude y)" unfolding m round_pattern_def by simp
qed

lemma sample_y_close:
  assumes "0 \<le> k" "k \<le> 1024" "exp_accurate exp_d (sample_x k)"
  shows "\<bar>real_of_rat (valof (sample_y exp_d k)) - exp (- real_of_int k / 128)\<bar>
           \<le> exp (- real_of_int k / 128) / 2 ^ 23"
proof -
  let ?E = "exp (- real_of_int k / 128)"
  define D where "D = valof (exp_d (sample_x k))"
  define y where "y = valof (sample_y exp_d k)"
  note b = exp_accurate_bounds[OF assms(3), unfolded real_of_rat_sample_x[OF assms(1,2)], folded D_def]
  have "\<bar>y - D\<bar> \<le> D / 2 ^ 24"
    unfolding y_def D_def using assms by (rule sample_y_nearest(3))
  then have "y - D \<le> D / 2 ^ 24" "- (y - D) \<le> D / 2 ^ 24"
    by (rule abs_le_D1, rule abs_le_D2)
  then have "y \<le> D + D / 2 ^ 24" "D - D / 2 ^ 24 \<le> y" by linarith+
  then have "real_of_rat y \<le> real_of_rat (D + D / 2 ^ 24)" "real_of_rat (D - D / 2 ^ 24) \<le> real_of_rat y"
    by (simp_all only: of_rat_less_eq)
  then have r: "real_of_rat y \<le> real_of_rat D + real_of_rat D / 16777216"
    "real_of_rat D - real_of_rat D / 16777216 \<le> real_of_rat y"
    by (simp_all add: of_rat_add of_rat_diff of_rat_divide of_rat_mult)
  have c: "(1 - 1 / 2 ^ 25 :: real) = 33554431 / 33554432" "(1 + 1 / 2 ^ 25 :: real) = 33554433 / 33554432"
    by simp_all
  have E: "0 < ?E" by simp
  have "\<bar>real_of_rat y - ?E\<bar> \<le> ?E / 8388608"
    using r b(1,2) E unfolding c by linarith
  then show ?thesis unfolding y_def by simp
qed

lemma fresh_world_ok [simp]:
  "can_open fresh_world out_path" "writes_succeed exp_d en fresh_world"
  "disk_room fresh_world out_path = None"
  "cout fresh_world = []" "cerr fresh_world = []" "events fresh_world = []"
  by (simp_all add: fresh_world_def writes_succeed_def)

lemma stale_world_ok [simp]:
  "can_open stale_world out_path" "writes_succeed exp_d en stale_world"
  "disk_room stale_world out_path = None"
  "files stale_world out_path = Some ''stale''"
  by (simp_all add: stale_world_def fresh_world_def writes_succeed_def)

lemma locked_world_ok [simp]:
  "\<not> can_open locked_world out_path" "cout locked_world = []" "cerr locked_world = []"
  by (simp_all add: locked_world_def fresh_world_def)

lemma full_disk_world_ok [simp]:
  "can_open full_disk_world out_path" "cout full_disk_world = []"
  "\<not> writes_succeed exp_d en full_disk_world"
  by (simp_all add: full_disk_world_def fresh_world_def writes_succeed_def length_table_text)

section \<open>A reference exponential\<close>


lemma real_of_rat_fact: "real_of_rat (fact n) = fact n"
proof -
  have "real_of_rat (of_nat (fact n)) = of_nat (fact n)" by (rule of_rat_of_nat_eq)
  then show ?thesis by (simp only: of_nat_fact)
qed

lemma real_of_rat_exp_series:
  "real_of_rat (exp_series n v) = (\<Sum>m<n. real_of_rat v ^ m / fact m)"
  by (induction n) (simp_all add: of_rat_add of_rat_divide of_rat_power real_of_rat_fact)

lemma fact_64: "fact 64 = (126886932185884164103433389335161480802865516174545192198801894375214704230400000000000000 :: nat)"
  by (simp add: fact_numeral)

lemma exp_remainder_small: "(6561 :: real) * 8 ^ 64 / fact 64 \<le> 1 / 2 ^ 90"
proof -
  have "(fact 64 :: real) = of_nat (fact 64)" by (simp only: of_nat_fact)
  also have "\<dots> = 126886932185884164103433389335161480802865516174545192198801894375214704230400000000000000"
    by (simp only: fact_64 of_nat_numeral)
  finally show ?thesis by simp
qed


lemma exp_8_upper: "exp (8 :: real) \<le> 6561"
proof -
  have "exp (8 :: real) = exp (of_nat 8 * 1)" by simp
  also have "\<dots> = exp 1 ^ 8" by (rule exp_of_nat_mult)
  also have "\<dots> \<le> 3 ^ 8" using exp_le by (intro power_mono) simp_all
  finally show ?thesis by simp
qed

lemma exp_series_bounds:
  fixes r :: real
  assumes "- 8 \<le> r" "r \<le> 0"
  defines "S \<equiv> (\<Sum>m<64. r ^ m / fact m)"
  shows "S \<le> exp r" and "exp r \<le> S + 1 / 2 ^ 90"
proof -
  obtain t where t: "\<bar>t\<bar> \<le> \<bar>r\<bar>"
    and e: "exp r = S + exp t / fact 64 * r ^ 64"
    unfolding S_def using Maclaurin_exp_le[of r 64] by blast
  define q where "q = exp t / fact 64 * r ^ 64"
  have "t \<le> 8" using t assms(1,2) by linarith
  then have "exp t \<le> exp 8" by (simp only: exp_le_cancel_iff)
  then have t8: "exp t \<le> 6561" using exp_8_upper by linarith
  have t0: "0 \<le> exp t" by simp
  have "r ^ 64 = \<bar>r\<bar> ^ 64" by (rule power_even_abs[symmetric]) simp
  also have "\<dots> \<le> 8 ^ 64" using assms(1,2) by (intro power_mono) linarith+
  finally have r64: "r ^ 64 \<le> 8 ^ 64" .
  have r0: "0 \<le> r ^ 64" by (rule zero_le_even_power) simp
  have f0: "0 < (fact 64 :: real)" by (rule fact_gt_zero)
  have q0: "0 \<le> q" unfolding q_def using t0 r0 f0 by (intro mult_nonneg_nonneg divide_nonneg_pos)
  have "exp t * r ^ 64 \<le> 6561 * 8 ^ 64"
    using t8 r64 r0 t0 by (intro mult_mono) simp_all
  then have "exp t * r ^ 64 / fact 64 \<le> 6561 * 8 ^ 64 / fact 64"
    using f0 by (intro divide_right_mono) simp_all
  also have "\<dots> \<le> 1 / 2 ^ 90" by (rule exp_remainder_small)
  finally have "q \<le> 1 / 2 ^ 90" unfolding q_def by (simp only: times_divide_eq_left)
  then show "S \<le> exp r" "exp r \<le> S + 1 / 2 ^ 90"
    using q0 unfolding e q_def[symmetric] by linarith+
qed


lemma fp_round_double_rel:
  fixes s :: rat
  assumes "1 / 8192 \<le> s" "s \<le> 1"
  shows "is_finite (fp_round False s :: float64)"
    and "s - s / 2 ^ 53 \<le> valof (fp_round False s :: float64)"
    and "valof (fp_round False s :: float64) \<le> s + s / 2 ^ 53"
proof -
  define y where "y = s * 2 ^ 1074"
  define U where "U = rat_of_int (fp_units 52 (round_pattern 52 y))"
  have s0: "0 \<le> s" using assms(1) by (rule order_trans[rotated]) simp
  have "(2::rat) ^ 52 \<le> 1 / 8192 * 2 ^ 1074" by simp
  also have "\<dots> \<le> y" unfolding y_def using assms(1) by (rule mult_right_mono) simp
  finally have n: "2 ^ 52 \<le> y" .
  have "y \<le> 1 * 2 ^ 1074" unfolding y_def using assms(2) by (rule mult_right_mono) simp
  then have y1: "y \<le> 2 ^ 1074" by simp
  have "\<bar>U - y\<bar> \<le> y / 2 ^ (52 + 1)" unfolding U_def using n by (rule round_pattern_rel_error)
  then have e: "\<bar>U - y\<bar> \<le> y / 2 ^ 53" by simp
  have lo: "y - y / 2 ^ 53 \<le> U" using abs_le_D2[OF e] by linarith
  have hi: "U \<le> y + y / 2 ^ 53" using abs_le_D1[OF e] by linarith
  have "y / 2 ^ 53 \<le> 2 ^ 1074 / 2 ^ 53" using y1 by (rule divide_right_mono) simp
  then have "U \<le> 2 ^ 1074 + 2 ^ 1074 / 2 ^ 53" using hi y1 by linarith
  also have "\<dots> < rat_of_int (2 ^ 52 * 2 ^ 2046)" by simp
  finally have "fp_units 52 (round_pattern 52 y) < 2 ^ 52 * 2 ^ 2046"
    unfolding U_def by (simp only: of_int_less_iff)
  moreover have "fp_units 52 ((2 ^ 11 - 1) * 2 ^ 52) = 2 ^ 52 * 2 ^ (2 ^ 11 - 2)"
    by (rule fp_units_infinity) simp
  ultimately have "fp_units 52 (round_pattern 52 y) < fp_units 52 ((2 ^ 11 - 1) * 2 ^ 52)"
    by simp
  then have "round_pattern 52 y < (2 ^ 11 - 1) * 2 ^ 52"
    by (rule fp_units_less_imp[rotated]) simp
  then have lt: "round_pattern LENGTH(52) (s * 2 ^ unit_shift LENGTH(11) LENGTH(52))
      < (2 ^ LENGTH(11) - 1) * 2 ^ LENGTH(52)"
    by (simp add: unit_shift_double y_def)
  note r = fp_round_finite[where 'e = 11 and 'f = 52 and s = False, OF s0 lt]
  show "is_finite (fp_round False s :: float64)" by (rule r(2))
  have "valof (fp_round False s :: float64) = U / 2 ^ 1074"
    using valof_nonneg_eq[of "fp_round False s :: float64"] r(1,3)
    by (simp add: unit_shift_double U_def y_def)
  moreover have "(y - y / 2 ^ 53) / 2 ^ 1074 \<le> U / 2 ^ 1074" using lo by (rule divide_right_mono) simp
  moreover have "U / 2 ^ 1074 \<le> (y + y / 2 ^ 53) / 2 ^ 1074" using hi by (rule divide_right_mono) simp
  moreover have "(y - y / 2 ^ 53) / 2 ^ 1074 = s - s / 2 ^ 53" "(y + y / 2 ^ 53) / 2 ^ 1074 = s + s / 2 ^ 53"
    unfolding y_def by (simp_all add: diff_divide_distrib add_divide_distrib)
  ultimately show "s - s / 2 ^ 53 \<le> valof (fp_round False s :: float64)"
    and "valof (fp_round False s :: float64) \<le> s + s / 2 ^ 53" by simp_all
qed


lemma exp_ref_accurate:
  assumes "- 8 \<le> valof x" "valof x \<le> 0"
  shows "exp_accurate exp_ref x"
proof -
  define r where "r = real_of_rat (valof x)"
  define s where "s = exp_series 64 (valof x)"
  define X where "X = valof (exp_ref x)"
  have "real_of_rat (- 8) \<le> real_of_rat (valof x)" "real_of_rat (valof x) \<le> real_of_rat 0"
    using assms by (simp_all only: of_rat_less_eq)
  then have r: "- 8 \<le> r" "r \<le> 0" by (simp_all add: r_def)
  have S: "real_of_rat s = (\<Sum>m<64. r ^ m / fact m)"
    unfolding s_def r_def by (rule real_of_rat_exp_series)
  note b = exp_series_bounds[OF r, folded S]
  have "exp (- 8) \<le> exp r" using r(1) by (simp only: exp_le_cancel_iff)
  then have e1: "1 / 6561 \<le> exp r" using exp_minus_8_lower by linarith
  have e2: "exp r \<le> 1" using r(2) by (simp only: exp_le_one_iff)
  have p90: "(1 / 2 ^ 90 :: real) = 1 / 1237940039285380274899124224" by simp
  have "1 / 8192 \<le> real_of_rat s" using b(2) e1 unfolding p90 by linarith
  moreover have "real_of_rat (1 / 8192) = 1 / 8192" by (simp add: of_rat_divide)
  ultimately have "real_of_rat (1 / 8192) \<le> real_of_rat s" by simp
  then have s1: "1 / 8192 \<le> s" by (simp only: of_rat_less_eq)
  have "real_of_rat s \<le> 1" using b(1) e2 by linarith
  then have "real_of_rat s \<le> real_of_rat 1" by (simp only: of_rat_1)
  then have s2: "s \<le> 1" by (simp only: of_rat_less_eq)
  have Xs: "valof (fp_round False s :: float64) = X" "(fp_round False s :: float64) = exp_ref x"
    by (simp_all add: X_def exp_ref_def s_def)
  note f = fp_round_double_rel[OF s1 s2, unfolded Xs(2), folded X_def]
  have "real_of_rat (s - s / 2 ^ 53) \<le> real_of_rat X" "real_of_rat X \<le> real_of_rat (s + s / 2 ^ 53)"
    using f(2,3) by (simp_all only: of_rat_less_eq)
  then have x: "real_of_rat s - real_of_rat s / 9007199254740992 \<le> real_of_rat X"
    "real_of_rat X \<le> real_of_rat s + real_of_rat s / 9007199254740992"
    by (simp_all add: of_rat_diff of_rat_add of_rat_divide of_rat_mult)
  have "\<bar>real_of_rat X - exp r\<bar> \<le> exp r / 33554432"
    using x b e1 unfolding p90 by linarith
  then have "\<bar>real_of_rat X - exp r\<bar> \<le> exp r / 2 ^ 25" by simp
  then show ?thesis
    unfolding exp_accurate_def X_def[symmetric] r_def[symmetric] using f(1) by simp
qed

lemma exp_ref_sample:
  assumes "0 \<le> k" "k \<le> 1024"
  shows "exp_accurate exp_ref (sample_x k)"
proof -
  have "- 8 \<le> valof (sample_x k)" "valof (sample_x k) \<le> 0"
    using assms by (simp_all add: sample_x_exact(1)[OF assms])
  then show ?thesis by (rule exp_ref_accurate)
qed

section \<open>Rounding on known values\<close>


text \<open>
  The rounding function on values whose binary32 encodings are well known: a third
  and a tenth, the ties at \<open>1 + 2 ^ - 24\<close> (down to the even 1.0) and at
  \<open>1 + 3 * 2 ^ - 24\<close> (up to the even neighbour), the least subnormal, half of it
  (a tie, to the even zero), the least normal number, the largest finite number, and
  \<open>2 ^ 128\<close>, which overflows to infinity.
\<close>

lemma fp_round_examples:
  "ieee_bits (fp_round False (1 / 3) :: float32) = (0x3eaaaaab :: 32 word)"
  "ieee_bits (fp_round True (1 / 10) :: float32) = (0xbdcccccd :: 32 word)"
  "ieee_bits (fp_round False (1 + 1 / 2 ^ 24) :: float32) = (0x3f800000 :: 32 word)"
  "ieee_bits (fp_round False (1 + 3 / 2 ^ 24) :: float32) = (0x3f800002 :: 32 word)"
  "ieee_bits (fp_round False (1 / 2 ^ 149) :: float32) = (0x00000001 :: 32 word)"
  "ieee_bits (fp_round False (1 / 2 ^ 150) :: float32) = (0x00000000 :: 32 word)"
  "ieee_bits (fp_round False (1 / 2 ^ 126) :: float32) = (0x00800000 :: 32 word)"
  "ieee_bits (fp_round False (2 ^ 128 - 2 ^ 104) :: float32) = (0x7f7fffff :: 32 word)"
  "ieee_bits (fp_round False (2 ^ 128) :: float32) = (0x7f800000 :: 32 word)"
  by code_simp+


text \<open>A NaN keeps the upper bits of its payload through the narrowing conversion.\<close>

lemma double_to_float_nan_payload:
  "ieee_bits (double_to_float (Ieee False (- 1) (2 ^ 51 + 2 ^ 50))) = (0x7fe00000 :: 32 word)"
  "ieee_bits (double_to_float (Ieee True (- 1) 1)) = (0xffc00000 :: 32 word)"
  "ieee_bits (double_to_float (Ieee False (- 1) 0)) = (0x7f800000 :: 32 word)"
  by code_simp+

section \<open>Properties of the generator\<close>

text \<open>
  C1. On a run that opens the file and whose writes succeed, for every \<open>k\<close> from 0
  to 1024, line \<open>k\<close> of the output file, read as a hexadecimal number and decoded
  as the bit pattern of a \<^verbatim>\<open>float\<close>, is the \<^verbatim>\<open>float\<close> \<open>y\<close> narrowed from the library's
  \<open>exp\<close> at the \<^verbatim>\<open>double\<close> \<open>x\<close>, and \<open>x\<close> has the value \<open>- k / 128\<close> exactly. When the
  library's \<open>exp\<close> is accurate at \<open>x\<close>, the narrowing is to the nearest: no finite
  \<^verbatim>\<open>float\<close> is closer to the library's result than \<open>y\<close>, where another one is as close
  the last bit of the printed word is 0 (ties to even), and \<open>y\<close> is within a
  relative error of \<open>2 ^ - 23\<close> of the exponential of \<open>- k / 128\<close>.
\<close>

theorem C1_entry_value:
  assumes "can_open w out_path" "writes_succeed exp_d en w" "0 \<le> k" "k \<le> 1024"
  shows "map_option (\<lambda>n. float_of_bits (of_int n)) (parse_hex (output_lines exp_d en w ! nat k))
           = Some (double_to_float (exp_d (sample_x k)))
         \<and> sample_y exp_d k = double_to_float (exp_d (sample_x k))
         \<and> parse_hex (output_lines exp_d en w ! nat k) = Some (uint (sample_u exp_d en k))
         \<and> is_finite (sample_x k) \<and> valof (sample_x k) = - of_int k / 128
         \<and> (exp_accurate exp_d (sample_x k) \<longrightarrow>
              (\<forall>z :: float32. is_finite z \<longrightarrow>
                 \<bar>valof (sample_y exp_d k) - valof (exp_d (sample_x k))\<bar>
                   \<le> \<bar>valof z - valof (exp_d (sample_x k))\<bar>)
              \<and> (\<forall>z :: float32. is_finite z \<and> valof z \<noteq> valof (sample_y exp_d k)
                   \<and> \<bar>valof z - valof (exp_d (sample_x k))\<bar>
                       = \<bar>valof (sample_y exp_d k) - valof (exp_d (sample_x k))\<bar>
                 \<longrightarrow> \<not> bit (sample_u exp_d en k) 0)
              \<and> \<bar>valof (sample_y exp_d k) - valof (exp_d (sample_x k))\<bar>
                   \<le> valof (exp_d (sample_x k)) / 2 ^ 24
              \<and> \<bar>real_of_rat (valof (sample_y exp_d k)) - exp (- real_of_int k / 128)\<bar>
                   \<le> exp (- real_of_int k / 128) / 2 ^ 23)"
proof -
  have "output_lines exp_d en w ! nat k = hex8 (sample_u exp_d en k)"
    using assms by (rule output_line_nth)
  then have p: "parse_hex (output_lines exp_d en w ! nat k) = Some (uint (sample_u exp_d en k))"
    by (simp add: parse_hex_hex8)
  have "float_of_bits (of_int (uint (sample_u exp_d en k))) = sample_y exp_d k"
    by (simp add: sample_u_def float_to_u32_bits float_of_bits_inverse)
  then have d: "map_option (\<lambda>n. float_of_bits (of_int n)) (parse_hex (output_lines exp_d en w ! nat k))
      = Some (double_to_float (exp_d (sample_x k)))"
    by (simp add: p sample_y_def)
  have n: "(\<forall>z :: float32. is_finite z \<longrightarrow>
        \<bar>valof (sample_y exp_d k) - valof (exp_d (sample_x k))\<bar>
          \<le> \<bar>valof z - valof (exp_d (sample_x k))\<bar>)
      \<and> (\<forall>z :: float32. is_finite z \<and> valof z \<noteq> valof (sample_y exp_d k)
           \<and> \<bar>valof z - valof (exp_d (sample_x k))\<bar>
               = \<bar>valof (sample_y exp_d k) - valof (exp_d (sample_x k))\<bar>
         \<longrightarrow> \<not> bit (sample_u exp_d en k) 0)
      \<and> \<bar>valof (sample_y exp_d k) - valof (exp_d (sample_x k))\<bar>
           \<le> valof (exp_d (sample_x k)) / 2 ^ 24
      \<and> \<bar>real_of_rat (valof (sample_y exp_d k)) - exp (- real_of_int k / 128)\<bar>
           \<le> exp (- real_of_int k / 128) / 2 ^ 23"
    if a: "exp_accurate exp_d (sample_x k)"
  proof -
    note r = sample_y_range[OF assms(3,4) a]
    have u: "uint (sample_u exp_d en k) = magnitude (sample_y exp_d k)"
      using r(5) by (rule uint_sample_u)
    have b: "bit (sample_u exp_d en k) 0 \<longleftrightarrow> odd (magnitude (sample_y exp_d k))"
    proof -
      have "bit (uint (sample_u exp_d en k)) 0 \<longleftrightarrow> bit (sample_u exp_d en k) 0"
        by (simp add: bit_uint_iff)
      then show ?thesis by (simp add: u bit_0)
    qed
    have "\<not> bit (sample_u exp_d en k) 0"
      if "valof z \<noteq> valof (sample_y exp_d k)"
        "\<bar>valof z - valof (exp_d (sample_x k))\<bar>
           = \<bar>valof (sample_y exp_d k) - valof (exp_d (sample_x k))\<bar>"
      for z :: float32
      using sample_y_nearest(2)[OF assms(3,4) a that] b by simp
    then show ?thesis
      using sample_y_nearest(1,3)[OF assms(3,4) a] sample_y_close[OF assms(3,4) a] by blast
  qed
  have s: "sample_y exp_d k = double_to_float (exp_d (sample_x k))" by (simp add: sample_y_def)
  show ?thesis
    by (intro conjI impI) (use d s p n sample_x_exact(1,2)[OF assms(3,4)] in blast)+
qed

theorem C1_entry_value_witness:
  "parse_hex (output_lines exp_ref LittleEndian fresh_world ! nat 3)
     = Some (uint (sample_u exp_ref LittleEndian 3))
   \<and> valof (sample_x 3) = - 3 / 128
   \<and> \<bar>real_of_rat (valof (sample_y exp_ref 3)) - exp (- 3 / 128)\<bar> \<le> exp (- 3 / 128) / 2 ^ 23"
  using C1_entry_value [of fresh_world exp_ref LittleEndian 3] exp_ref_sample [of 3]
  by (simp add: sample_y_def)

text \<open>
  C2. A run that ends with exit status 0 need not leave 1025 lines: the program
  tests the stream once, after the open, and where the file system takes 4095
  characters and no more it still exits with status 0, over a file of 455 lines.
\<close>

theorem C2_truncated_file:
  "fst (main exp_ref LittleEndian full_disk_world) = 0
   \<and> length (output_lines exp_ref LittleEndian full_disk_world) = 455
   \<and> length (output_lines exp_ref LittleEndian full_disk_world) \<noteq> 1025"
  by (simp add: output_lines_full_disk(1,3))

text \<open>
  C2, amended. On a run that opens the file and whose writes all succeed, the
  output file is exactly 1025 lines, each of them eight lowercase hexadecimal digits
  (zeros in front, no prefix) followed by a line feed, and line \<open>k\<close> denotes the
  encoded word of sample index \<open>k\<close>, for \<open>k\<close> from 0 to 1024 in ascending order.
\<close>

theorem C2_file_format:
  assumes "can_open w out_path" "writes_succeed exp_d en w"
  shows "output_file exp_d en w =
           Some (concat (map (\<lambda>l. l @ [CHR 0x0A]) (output_lines exp_d en w)))
         \<and> length (output_lines exp_d en w) = 1025
         \<and> (\<forall>l \<in> set (output_lines exp_d en w). length l = 8 \<and> set l \<subseteq> hex_chars)
         \<and> (\<forall>k. 0 \<le> k \<and> k \<le> 1024 \<longrightarrow>
               parse_hex (output_lines exp_d en w ! nat k) = Some (uint (sample_u exp_d en k))
               \<and> output_lines exp_d en w ! nat k = hex8 (sample_u exp_d en k))"
proof -
  let ?ls = "map (\<lambda>i. hex8 (sample_u exp_d en i)) [0 .. STEPS]"
  have ls: "output_lines exp_d en w = ?ls"
    using assms by (rule output_lines_success)
  have "output_file exp_d en w = Some (table_text exp_d en 0)"
    using assms by (simp add: output_file_def main_success written_all)
  then have "output_file exp_d en w = Some (concat (map (\<lambda>l. l @ [CHR 0x0A]) ?ls))"
    by (simp only: table_text_lines)
  moreover have "length ?ls = 1025" by (simp add: STEPS_def)
  moreover have "\<forall>l \<in> set ?ls. length l = 8 \<and> set l \<subseteq> hex_chars"
    using length_hex8 set_hex8 by auto
  moreover have "\<forall>k. 0 \<le> k \<and> k \<le> 1024 \<longrightarrow>
      parse_hex (output_lines exp_d en w ! nat k) = Some (uint (sample_u exp_d en k))
      \<and> output_lines exp_d en w ! nat k = hex8 (sample_u exp_d en k)"
    using output_line_nth[OF assms] by (simp add: parse_hex_hex8)
  ultimately show ?thesis by (simp only: ls)
qed

theorem C2_file_format_witness:
  "length (output_lines exp_ref LittleEndian fresh_world) = 1025
   \<and> output_file exp_ref LittleEndian fresh_world
       = Some (concat (map (\<lambda>l. l @ [CHR 0x0A]) (output_lines exp_ref LittleEndian fresh_world)))"
  using C2_file_format [of fresh_world exp_ref LittleEndian]
  by simp

text \<open>
  C3. On a run that opens the file and whose writes succeed, when the library's
  \<open>exp\<close> is accurate at 0 (to a relative error of \<open>2 ^ - 25\<close>;
  returning exactly 1 is one way), the first entry is the \<^verbatim>\<open>float\<close> 1.0, its encoded
  word is \<open>0x3f800000\<close>, and line 0 of the file is the string \<open>3f800000\<close>.
\<close>

theorem C3_first_line:
  assumes "can_open w out_path" "writes_succeed exp_d en w"
    and "exp_accurate exp_d (sample_x 0)"
  shows "output_lines exp_d en w ! 0 = ''3f800000''
         \<and> parse_hex (output_lines exp_d en w ! 0) = Some 0x3f800000
         \<and> sample_u exp_d en 0 = 0x3f800000
         \<and> sample_y exp_d 0 = Ieee False 127 0
         \<and> valof (sample_y exp_d 0) = 1"
proof -
  have u: "sample_u exp_d en 0 = 0x3f800000" using assms(3) by (rule sample_u_first)
  have "output_lines exp_d en w ! nat 0 = hex8 (sample_u exp_d en 0)"
    using assms(1,2) by (rule output_line_nth) simp_all
  then have l: "output_lines exp_d en w ! 0 = ''3f800000''" by (simp add: u hex8_one)
  have "parse_hex (hex8 0x3f800000) = Some (uint (0x3f800000 :: 32 word))"
    by (rule parse_hex_hex8)
  then have p: "parse_hex (output_lines exp_d en w ! 0) = Some 0x3f800000"
    by (simp add: l hex8_one)
  have "float_of_bits (float_to_u32 en (sample_y exp_d 0)) = sample_y exp_d 0"
    by (simp add: float_to_u32_bits float_of_bits_inverse)
  then have y: "sample_y exp_d 0 = Ieee False 127 0"
    using u by (simp add: sample_u_def float_of_bits_one)
  have k: "(0::int) \<le> 0" "(0::int) \<le> 1024" by simp_all
  have "valof (sample_y exp_d 0) = rat_of_int (fp_units 23 1065353216) / 2 ^ 149"
    using sample_y_value(1)[OF k assms(3)] by (simp only: sample_y_first(1)[OF assms(3)])
  then have v: "valof (sample_y exp_d 0) = 1" by (simp only: fp_units_one) simp
  show ?thesis using l p u y v by simp
qed

theorem C3_first_line_witness:
  "output_lines exp_ref LittleEndian fresh_world ! 0 = ''3f800000''"
  using C3_first_line [of fresh_world exp_ref LittleEndian] exp_ref_sample [of 0]
  by simp

text \<open>
  C4. A run that can open the file leaves the same file whatever was there before:
  the file after the run is what the file system takes of the table, and does not
  depend on the files of the world the run started in. So a second run, on the world
  the first one left, writes the same bytes again; they are the whole table when the
  writes succeed.
\<close>

theorem C4_idempotent:
  assumes "can_open w out_path"
  shows "output_file exp_d en (snd (main exp_d en w)) = output_file exp_d en w
         \<and> output_file exp_d en (w\<lparr>files := fs\<rparr>) = output_file exp_d en w
         \<and> output_file exp_d en w = Some (written (disk_room w out_path) (table_text exp_d en 0))
         \<and> (writes_succeed exp_d en w \<longrightarrow>
              output_file exp_d en w = Some (table_text exp_d en 0))"
proof -
  have "can_open (snd (main exp_d en w)) out_path"
    using assms by (simp add: main_success)
  then show ?thesis
    using assms by (simp add: output_file_def main_success written_all)
qed

theorem C4_idempotent_witness:
  "output_file exp_ref BigEndian (snd (main exp_ref BigEndian stale_world))
     = output_file exp_ref BigEndian stale_world
   \<and> output_file exp_ref BigEndian stale_world = Some (table_text exp_ref BigEndian 0)"
  using C4_idempotent [of stale_world exp_ref BigEndian]
  by simp

text \<open>
  C5. The exit status is 0 when the output file can be opened and 1 when it cannot.
  In the second case the line \<open>Failed to open output file.\<close> goes to the error
  stream and nothing else happens: no file is touched and nothing is written to
  standard output.
\<close>

theorem C5_open_failure:
  "fst (main exp_d en w) = (if can_open w out_path then 0 else 1)
   \<and> (\<not> can_open w out_path \<longrightarrow>
        cerr (snd (main exp_d en w)) = cerr w @ ''Failed to open output file.'' @ [CHR 0x0A]
        \<and> cout (snd (main exp_d en w)) = cout w
        \<and> files (snd (main exp_d en w)) = files w
        \<and> events (snd (main exp_d en w))
            = events w @ [EvCerr (''Failed to open output file.'' @ [CHR 0x0A])])"
  by (simp add: main_success main_failure open_failed_msg_def)

theorem C5_open_failure_witness:
  "fst (main exp_ref LittleEndian locked_world) = 1
   \<and> cout (snd (main exp_ref LittleEndian locked_world)) = []
   \<and> cerr (snd (main exp_ref LittleEndian locked_world)) = ''Failed to open output file.'' @ [CHR 0x0A]"
  using C5_open_failure [of exp_ref LittleEndian locked_world]
  by simp

text \<open>
  C6. The message on standard output does not wait for the table to be in the
  file: where the file system takes 4095 characters and no more, the run exits with
  status 0 and prints the message over a file of 455 lines.
\<close>

theorem C6_message_over_truncated_file:
  "fst (main exp_ref LittleEndian full_disk_world) = 0
   \<and> cout (snd (main exp_ref LittleEndian full_disk_world)) = done_msg
   \<and> length (output_lines exp_ref LittleEndian full_disk_world) = 455"
  by (simp add: output_lines_full_disk(1,3,4))

text \<open>
  C6, amended. A run that opens the file writes one line to standard output, which
  names the file \<open>exp_lut_1over128.hex\<close> and the 1025 entries. Its three actions are,
  in this order: opening the file, closing it, and writing that line. The writes and
  the close are not checked: the file holds what the file system took of the table,
  which is the whole table of 1025 lines when every write succeeds.
\<close>

theorem C6_success_message:
  assumes "can_open w out_path"
  shows "cout (snd (main exp_d en w))
           = cout w @ ''Generated exp_lut_1over128.hex with 1025 entries.'' @ [CHR 0x0A]
         \<and> out_path = ''exp_lut_1over128.hex''
         \<and> events (snd (main exp_d en w)) =
               events w @ [EvOpen out_path,
                 EvClose out_path (written (disk_room w out_path) (table_text exp_d en 0)),
                 EvCout (''Generated exp_lut_1over128.hex with 1025 entries.'' @ [CHR 0x0A])]
         \<and> files (snd (main exp_d en w)) out_path
             = Some (written (disk_room w out_path) (table_text exp_d en 0))
         \<and> (writes_succeed exp_d en w \<longrightarrow>
              written (disk_room w out_path) (table_text exp_d en 0) = table_text exp_d en 0
              \<and> length (split_lines (table_text exp_d en 0)) = 1025)"
proof -
  have "writes_succeed exp_d en w \<longrightarrow>
      written (disk_room w out_path) (table_text exp_d en 0) = table_text exp_d en 0
      \<and> length (split_lines (table_text exp_d en 0)) = 1025"
    by (simp add: written_all table_lines STEPS_def)
  moreover have "out_path = ''exp_lut_1over128.hex''" by (simp add: out_path_def)
  ultimately show ?thesis
    using assms by (simp add: main_success done_msg_def)
qed

theorem C6_success_message_witness:
  "cout (snd (main exp_ref LittleEndian fresh_world))
     = ''Generated exp_lut_1over128.hex with 1025 entries.'' @ [CHR 0x0A]
   \<and> files (snd (main exp_ref LittleEndian fresh_world)) out_path
       = Some (table_text exp_ref LittleEndian 0)"
  using C6_success_message [of fresh_world exp_ref LittleEndian]
  by simp

text \<open>
  C7. For every \<open>k\<close> from 0 to 1024 the argument \<open>x\<close> is a finite \<^verbatim>\<open>double\<close> of value
  \<open>- k / 128\<close>, between \<open>- 8\<close> and 0. When the library's \<open>exp\<close> is accurate at \<open>x\<close>,
  the narrowed \<^verbatim>\<open>float\<close> \<open>y\<close> is a normal number: finite, not a NaN, not zero, not
  subnormal, positive, between \<open>2 ^ - 13\<close> and 1.
\<close>

theorem C7_no_numeric_failure:
  assumes "0 \<le> k" "k \<le> 1024"
  shows "is_finite (sample_x k) \<and> valof (sample_x k) = - of_int k / 128
         \<and> - 8 \<le> valof (sample_x k) \<and> valof (sample_x k) \<le> 0
         \<and> (exp_accurate exp_d (sample_x k) \<longrightarrow>
              is_normal (sample_y exp_d k) \<and> is_finite (sample_y exp_d k)
              \<and> \<not> is_nan (sample_y exp_d k) \<and> \<not> is_inf (sample_y exp_d k)
              \<and> \<not> is_zero (sample_y exp_d k) \<and> \<not> sign (sample_y exp_d k)
              \<and> 1 / 8192 \<le> valof (sample_y exp_d k) \<and> valof (sample_y exp_d k) \<le> 1)"
proof -
  note x = sample_x_exact[OF assms]
  have r: "- 8 \<le> valof (sample_x k)" "valof (sample_x k) \<le> 0"
    using assms by (simp_all add: x(1))
  have "is_normal (sample_y exp_d k) \<and> is_finite (sample_y exp_d k)
      \<and> \<not> is_nan (sample_y exp_d k) \<and> \<not> is_inf (sample_y exp_d k)
      \<and> \<not> is_zero (sample_y exp_d k) \<and> \<not> sign (sample_y exp_d k)
      \<and> 1 / 8192 \<le> valof (sample_y exp_d k) \<and> valof (sample_y exp_d k) \<le> 1"
    if a: "exp_accurate exp_d (sample_x k)"
  proof -
    note s = sample_y_range[OF assms a]
    note v = sample_y_value[OF assms a]
    have n: "is_normal (sample_y exp_d k)" using assms a by (rule sample_y_normal)
    then have z: "\<not> is_zero (sample_y exp_d k)" by (simp add: is_normal_def is_zero_def)
    show ?thesis
      using n z s(4,5) v(2,3) is_finite_not_special[OF s(4)] by simp
  qed
  then show ?thesis using x(1,2) r by simp
qed

theorem C7_no_numeric_failure_witness:
  "is_normal (sample_y exp_ref 1024) \<and> valof (sample_x 1024) = - 8"
  using C7_no_numeric_failure [of 1024 exp_ref] exp_ref_sample [of 1024]
  by simp

text \<open>
  C8. \<open>float_to_u32\<close> returns the IEEE-754 encoding of its argument unchanged, for
  every \<^verbatim>\<open>float\<close> (infinities and NaNs too) and either byte order: bit 31 is the
  sign, bits 30 to 23 the exponent field, bits 22 to 0 the trailing significand.
  Decoding the result gives the argument back, so no two floats share a result.
\<close>

theorem C8_bit_reinterpretation:
  "float_to_u32 en v = ieee_bits v
   \<and> (\<forall>n. bit (float_to_u32 en v) n \<longleftrightarrow>
          (n < 23 \<and> bit (fraction v) n)
          \<or> (23 \<le> n \<and> n < 31 \<and> bit (expo v) (n - 23))
          \<or> (n = 31 \<and> sign v))
   \<and> float_of_bits (float_to_u32 en v) = v"
  by (simp add: float_to_u32_bits bit_ieee_bits float_of_bits_inverse)


text \<open>
  C9. The table decreases strictly: when the library's \<open>exp\<close> is accurate at two
  neighbouring sample points \<open>k\<close> and \<open>k + 1\<close>, the encoded word of entry \<open>k + 1\<close> is
  below that of entry \<open>k\<close> as an unsigned integer, and so is the \<^verbatim>\<open>float\<close> value.
  On a run that opens the file and whose writes succeed, these words are the
  numbers that lines \<open>k + 1\<close> and \<open>k\<close> of the output file denote.
\<close>

theorem C9_strictly_decreasing:
  assumes "0 \<le> k" "k < 1024"
    and "exp_accurate exp_d (sample_x k)" "exp_accurate exp_d (sample_x (k + 1))"
  shows "sample_u exp_d en (k + 1) < sample_u exp_d en k
         \<and> valof (sample_y exp_d (k + 1)) < valof (sample_y exp_d k)
         \<and> (can_open w out_path \<and> writes_succeed exp_d en w \<longrightarrow>
              parse_hex (output_lines exp_d en w ! nat (k + 1)) = Some (uint (sample_u exp_d en (k + 1)))
              \<and> parse_hex (output_lines exp_d en w ! nat k) = Some (uint (sample_u exp_d en k))
              \<and> uint (sample_u exp_d en (k + 1)) < uint (sample_u exp_d en k))"
proof -
  let ?Xa = "valof (exp_d (sample_x k))" and ?Xb = "valof (exp_d (sample_x (k + 1)))"
  let ?ya = "sample_y exp_d k" and ?yb = "sample_y exp_d (k + 1)"
  have ka: "0 \<le> k" "k \<le> 1024" and kb: "0 \<le> k + 1" "k + 1 \<le> 1024" using assms(1,2) by simp_all
  note a = sample_y_range[OF ka assms(3)]
  note b = sample_y_range[OF kb assms(4)]
  have "1 / 8192 \<le> ?Xb" using kb assms(4) by (rule sample_exp_value_range)
  then have "1 / 8192 * 2 ^ 149 \<le> ?Xb * 2 ^ 149" by (rule mult_right_mono) simp
  then have 1: "2 ^ 23 \<le> ?Xb * 2 ^ 149" by simp
  have "?Xb \<le> 255 / 256 * ?Xa" using assms by (rule sample_exp_step)
  then have "?Xb * 2 ^ 149 \<le> 255 / 256 * ?Xa * 2 ^ 149" by (rule mult_right_mono) simp
  then have 2: "?Xb * 2 ^ 149 \<le> 255 / 256 * (?Xa * 2 ^ 149)" by (simp only: mult.assoc)
  have un: "fp_units 23 (magnitude ?yb) < fp_units 23 (magnitude ?ya)"
    unfolding a(3) b(3) using 1 2 by (rule round_pattern_strict_units)
  have "magnitude ?yb < magnitude ?ya"
    using magnitude_nonneg un by (rule fp_units_less_imp)
  then have ui: "uint (sample_u exp_d en (k + 1)) < uint (sample_u exp_d en k)"
    using a(5) b(5) by (simp add: uint_sample_u)
  then have u: "sample_u exp_d en (k + 1) < sample_u exp_d en k" by (simp only: word_less_def)
  have "rat_of_int (fp_units 23 (magnitude ?yb)) < of_int (fp_units 23 (magnitude ?ya))"
    using un by (simp only: of_int_less_iff)
  then have "rat_of_int (fp_units 23 (magnitude ?yb)) / 2 ^ 149 < of_int (fp_units 23 (magnitude ?ya)) / 2 ^ 149"
    by (rule divide_strict_right_mono) simp
  then have v: "valof ?yb < valof ?ya"
    by (simp only: sample_y_value(1)[OF ka assms(3)] sample_y_value(1)[OF kb assms(4)])
  have "parse_hex (output_lines exp_d en w ! nat j) = Some (uint (sample_u exp_d en j))"
    if "can_open w out_path" "writes_succeed exp_d en w" "0 \<le> j" "j \<le> 1024" for j
    using output_line_nth[OF that] by (simp add: parse_hex_hex8)
  then show ?thesis using u v ui ka kb by simp
qed

theorem C9_strictly_decreasing_witness:
  "sample_u exp_ref LittleEndian 1024 < sample_u exp_ref LittleEndian 1023
   \<and> parse_hex (output_lines exp_ref LittleEndian fresh_world ! nat 1024)
       = Some (uint (sample_u exp_ref LittleEndian 1024))"
  using C9_strictly_decreasing [of 1023 exp_ref LittleEndian fresh_world] exp_ref_sample [of 1023]
    exp_ref_sample [of 1024]
  by simp

text \<open>
  C10. When the library's \<open>exp\<close> is accurate at sample point \<open>k\<close>, the encoded word
  lies between \<open>0x39000000\<close> and \<open>0x3f800000\<close>: its sign bit is clear, its
  hexadecimal digits are eight with a leading 3, and the line is those digits with
  no padding in front.
\<close>

theorem C10_word_range:
  assumes "0 \<le> k" "k \<le> 1024" "exp_accurate exp_d (sample_x k)"
  shows "0x39000000 \<le> sample_u exp_d en k \<and> sample_u exp_d en k \<le> 0x3f800000
         \<and> \<not> bit (sample_u exp_d en k) 31
         \<and> length (digits 16 (uint (sample_u exp_d en k))) = 8
         \<and> hd (hex8 (sample_u exp_d en k)) = CHR ''3''
         \<and> hex8 (sample_u exp_d en k) = digits 16 (uint (sample_u exp_d en k))"
proof -
  let ?u = "sample_u exp_d en k"
  note r = sample_y_range[OF assms]
  have m: "uint ?u = magnitude (sample_y exp_d k)" using r(5) by (rule uint_sample_u)
  have "uint (0x39000000 :: 32 word) \<le> uint ?u" using r(1) m by simp
  then have lo: "0x39000000 \<le> ?u" by (simp only: word_le_def)
  have "uint ?u \<le> uint (0x3f800000 :: 32 word)" using r(2) m by simp
  then have hi: "?u \<le> 0x3f800000" by (simp only: word_le_def)
  have s: "\<not> bit ?u 31" using r(5) by (simp add: sample_u_def float_to_u32_bits bit_ieee_bits)
  have "length (digits 16 (uint ?u)) = 7 + 1 \<and> hd (digits 16 (uint ?u)) = digit_char 3"
    using r(1,2) m by (intro digits_leading) simp_all
  then have d: "length (digits 16 (uint ?u)) = 8" "hd (digits 16 (uint ?u)) = CHR ''3''"
    by (simp_all add: digit_char_def)
  then have h: "hex8 ?u = digits 16 (uint ?u)" by (simp add: hex8_def)
  show ?thesis using lo hi s d h by simp
qed

theorem C10_word_range_witness:
  "0x39000000 \<le> sample_u exp_ref BigEndian 1024 \<and> sample_u exp_ref BigEndian 1024 \<le> 0x3f800000"
  using C10_word_range [of 1024 exp_ref BigEndian] exp_ref_sample [of 1024]
  by simp

end
